theory Spec2Isabelle
  imports Complex_Main "HOL-Library.AList" "HOL-Library.Log_Nat"
begin

section \<open>Scheduling metrics from a simulator's execution log\<close>

text \<open>
  The program is \<^verbatim>\<open>metrics_101258593.py\<close>. It reads a table of process state
  transitions, \<^verbatim>\<open>parse_execution_file\<close>, and derives four averages from them,
  \<^verbatim>\<open>compute_metrics\<close>.

  Conventions of the embedding.
  \<^item> A Python \<^verbatim>\<open>int\<close> is an \<^typ>\<open>int\<close>; a Python \<^verbatim>\<open>str\<close> is a \<^typ>\<open>string\<close>, each
    \<^typ>\<open>char\<close> standing for the code point of the same number (code points below 256).
  \<^item> A Python \<^verbatim>\<open>dict\<close> is an association list with distinct keys in insertion order:
    \<^verbatim>\<open>d[k] = v\<close> is \<^const>\<open>AList.update\<close>, which replaces the value of a key in place and
    appends a new key at the end, \<^verbatim>\<open>k in d\<close> and \<^verbatim>\<open>d[k]\<close> are \<^const>\<open>map_of\<close>.
  \<^item> An exception is a value of \<open>py_error\<close>; a function that may raise returns
    \<open>py_error + 'a\<close>.
  \<^item> A Python \<^verbatim>\<open>float\<close> is a \<^typ>\<open>rat\<close>, the number it stands for. The true division
    \<^verbatim>\<open>a / b\<close> of two ints is modelled in two layers. \<open>py_truediv\<close> and \<open>compute_metrics\<close>
    give the quotient before it is rounded, with the \<^verbatim>\<open>OverflowError\<close> that the division
    raises when the quotient is beyond the range of binary64. \<open>binary64\<close> is the rounding
    to the nearest float, and \<open>compute_metrics_float\<close> the record of floats that the
    Python function returns.
\<close>

subsection \<open>Transitions and the scan state\<close>

type_synonym transition = "int \<times> string \<times> string \<times> string"

type_synonym 'v dict = "(string \<times> 'v) list"

datatype py_error = RuntimeError | ValueError | ZeroDivisionError | OverflowError

text \<open>The five dictionaries that \<^verbatim>\<open>compute_metrics\<close> fills while it scans the transitions.\<close>

record scan_state =
  arrivals :: "int dict"
  first_run :: "int dict"
  finish_time :: "int dict"
  wait_time :: "int dict"
  last_ready_time :: "int dict"

definition init_state :: scan_state where
  "init_state = \<lparr>arrivals = [], first_run = [], finish_time = [], wait_time = [],
                 last_ready_time = []\<rparr>"

text \<open>
  The four \<^verbatim>\<open>if\<close> statements of the loop body, lines 106 to 125, each a function on the
  state. They run one after the other, each on the state the previous one left.
\<close>

definition on_arrival :: "transition \<Rightarrow> scan_state \<Rightarrow> scan_state" where
  "on_arrival tr s =
     (case tr of (time, pid, old, new) \<Rightarrow>
        if new = ''READY'' \<and> old = ''NEW''
        then s\<lparr>arrivals := AList.update pid time (arrivals s),
               last_ready_time := AList.update pid time (last_ready_time s)\<rparr>
        else s)"

definition on_running :: "transition \<Rightarrow> scan_state \<Rightarrow> scan_state" where
  "on_running tr s =
     (case tr of (time, pid, old, new) \<Rightarrow>
        if new = ''RUNNING''
        then
          let s1 = (case map_of (first_run s) pid of
                      None \<Rightarrow> s\<lparr>first_run := AList.update pid time (first_run s)\<rparr>
                    | Some _ \<Rightarrow> s)
          in (case map_of (last_ready_time s1) pid of
                None \<Rightarrow> s1
              | Some r \<Rightarrow>
                  s1\<lparr>wait_time :=
                       AList.update pid
                         ((case map_of (wait_time s1) pid of None \<Rightarrow> 0 | Some w \<Rightarrow> w)
                            + (time - r))
                         (wait_time s1)\<rparr>)
        else s)"

definition on_terminated :: "transition \<Rightarrow> scan_state \<Rightarrow> scan_state" where
  "on_terminated tr s =
     (case tr of (time, pid, old, new) \<Rightarrow>
        if new = ''TERMINATED''
        then s\<lparr>finish_time := AList.update pid time (finish_time s)\<rparr>
        else s)"

definition on_ready_again :: "transition \<Rightarrow> scan_state \<Rightarrow> scan_state" where
  "on_ready_again tr s =
     (case tr of (time, pid, old, new) \<Rightarrow>
        if new = ''READY'' \<and> old = ''WAITING''
        then s\<lparr>last_ready_time := AList.update pid time (last_ready_time s)\<rparr>
        else s)"

definition step :: "transition \<Rightarrow> scan_state \<Rightarrow> scan_state" where
  "step tr s = on_ready_again tr (on_terminated tr (on_running tr (on_arrival tr s)))"

text \<open>The loop of lines 103 to 125, from any state, and from the empty dictionaries.\<close>

fun scan_from :: "scan_state \<Rightarrow> transition list \<Rightarrow> scan_state" where
  "scan_from s [] = s"
| "scan_from s (tr # trs) = scan_from (step tr s) trs"

definition scan :: "transition list \<Rightarrow> scan_state" where
  "scan transitions = scan_from init_state transitions"

subsection \<open>Turnaround and response\<close>

text \<open>
  The loop of lines 130 to 134 runs over the keys of \<^verbatim>\<open>arrivals\<close> in order; \<open>a\<close> is
  \<^verbatim>\<open>arrivals[pid]\<close>, the value stored under the key the loop is at.
\<close>

fun turnaround_loop :: "int dict \<Rightarrow> int dict \<Rightarrow> int dict \<Rightarrow> int dict" where
  "turnaround_loop fin [] acc = acc"
| "turnaround_loop fin ((pid, a) # rest) acc =
     turnaround_loop fin rest
       (case map_of fin pid of None \<Rightarrow> acc | Some f \<Rightarrow> AList.update pid (f - a) acc)"

fun response_loop :: "int dict \<Rightarrow> int dict \<Rightarrow> int dict \<Rightarrow> int dict" where
  "response_loop fr [] acc = acc"
| "response_loop fr ((pid, a) # rest) acc =
     response_loop fr rest
       (case map_of fr pid of None \<Rightarrow> acc | Some r \<Rightarrow> AList.update pid (r - a) acc)"

definition turnaround :: "scan_state \<Rightarrow> int dict" where
  "turnaround s = turnaround_loop (finish_time s) (arrivals s) []"

definition response :: "scan_state \<Rightarrow> int dict" where
  "response s = response_loop (first_run s) (arrivals s) []"

subsection \<open>Aggregation\<close>

text \<open>
  \<^verbatim>\<open>a / b\<close> on two ints. Python raises \<^verbatim>\<open>ZeroDivisionError\<close> when \<open>b\<close> is zero and
  \<^verbatim>\<open>OverflowError\<close> (integer division result too large for a float) when the quotient,
  rounded to nearest even, is not a finite binary64 number, that is from
  \<open>2 ^ 1024 - 2 ^ 970\<close> on in magnitude. A quotient too small for a float is rounded to zero
  without an error. The value of \<open>py_truediv\<close> is the quotient itself; \<open>binary64\<close>, below,
  is the float that Python makes of it.
\<close>

definition float_max_bound :: rat where
  "float_max_bound = 2 ^ 1024 - 2 ^ 970"

definition py_truediv :: "int \<Rightarrow> int \<Rightarrow> py_error + rat" where
  "py_truediv a b =
     (if b = 0 then Inl ZeroDivisionError
      else if float_max_bound \<le> \<bar>of_int a / of_int b\<bar> then Inl OverflowError
      else Inr (of_int a / of_int b))"

text \<open>\<^verbatim>\<open>max\<close> of a sequence keeps the first of the largest items; the empty sequence raises.\<close>

fun py_max :: "int list \<Rightarrow> py_error + int" where
  "py_max [] = Inl ValueError"
| "py_max (x # xs) = Inr (fold (\<lambda>v m. if m < v then v else m) xs x)"

definition values_of :: "int dict \<Rightarrow> int list" where
  "values_of d = map snd d"

record metrics =
  throughput :: rat
  avg_wait_time :: rat
  avg_turnaround :: rat
  avg_response :: rat

definition bind_res :: "py_error + 'a \<Rightarrow> ('a \<Rightarrow> py_error + 'b) \<Rightarrow> py_error + 'b" where
  "bind_res r f = (case r of Inl e \<Rightarrow> Inl e | Inr v \<Rightarrow> f v)"

text \<open>
  Lines 127 to 148. The entries of the result are evaluated in the order they are
  written, so the first division that raises decides the error.
\<close>

definition compute_metrics :: "transition list \<Rightarrow> py_error + metrics" where
  "compute_metrics transitions =
     (let s = scan transitions;
          turnaround_d = turnaround s;
          response_d = response s
      in if finish_time s = [] then Inl RuntimeError
         else
           let n = (if arrivals s \<noteq> [] then int (length (arrivals s)) else 1)
           in bind_res (py_max (values_of (finish_time s))) (\<lambda>total_finish_time.
              bind_res (if 0 < total_finish_time then py_truediv n total_finish_time
                        else Inr 0) (\<lambda>thr.
              bind_res (if 0 < n then py_truediv (sum_list (values_of (wait_time s))) n
                        else Inr 0) (\<lambda>aw.
              bind_res (if 0 < n then py_truediv (sum_list (values_of turnaround_d)) n
                        else Inr 0) (\<lambda>atu.
              bind_res (if 0 < n then py_truediv (sum_list (values_of response_d)) n
                        else Inr 0) (\<lambda>ar.
              Inr \<lparr>throughput = thr, avg_wait_time = aw, avg_turnaround = atu,
                   avg_response = ar\<rparr>))))))"

subsection \<open>Rounding to a float\<close>

text \<open>
  A binary64 float has 53 significant bits and an exponent of at least \<open>- 1022\<close>, so the
  floats around a number \<open>q\<close> with \<open>2 ^ e \<le> \<bar>q\<bar> < 2 ^ (e + 1)\<close> are the multiples of
  \<open>2 ^ (max e (- 1022) - 52)\<close>. The true division of two ints gives the one nearest to the
  quotient, and of two equally near the one with an even multiplier.
\<close>

definition pow2 :: "int \<Rightarrow> rat" where
  "pow2 e = (if 0 \<le> e then 2 ^ nat e else 1 / 2 ^ nat (- e))"

text \<open>The \<open>e\<close> with \<open>2 ^ e \<le> q < 2 ^ (e + 1)\<close>, for a positive \<open>q\<close>.\<close>

definition floor_log2 :: "rat \<Rightarrow> int" where
  "floor_log2 q =
     (if 1 \<le> q then int (floorlog 2 (nat \<lfloor>q\<rfloor>)) - 1
      else - int (floorlog 2 (nat (\<lceil>1 / q\<rceil> - 1))))"

definition round_half_even :: "rat \<Rightarrow> int" where
  "round_half_even x =
     (let f = \<lfloor>x\<rfloor>; d = x - of_int f
      in if d < 1 / 2 then f else if 1 / 2 < d then f + 1 else if even f then f else f + 1)"

definition binary64 :: "rat \<Rightarrow> rat" where
  "binary64 q =
     (if q = 0 then 0
      else let e = max (floor_log2 \<bar>q\<bar>) (- 1022);
               ulp = pow2 (e - 52)
           in of_int (round_half_even (q / ulp)) * ulp)"

text \<open>
  The record that the Python function returns: each entry is the float of the quotient
  at hand (the literal \<^verbatim>\<open>0.0\<close> is its own float).
\<close>

definition as_floats :: "metrics \<Rightarrow> metrics" where
  "as_floats m =
     \<lparr>throughput = binary64 (throughput m), avg_wait_time = binary64 (avg_wait_time m),
      avg_turnaround = binary64 (avg_turnaround m), avg_response = binary64 (avg_response m)\<rparr>"

definition compute_metrics_float :: "transition list \<Rightarrow> py_error + metrics" where
  "compute_metrics_float transitions =
     (case compute_metrics transitions of Inl e \<Rightarrow> Inl e | Inr m \<Rightarrow> Inr (as_floats m))"

subsection \<open>Reading the execution file\<close>

text \<open>
  \<^verbatim>\<open>str.strip()\<close> removes the white space of both ends; among the code points below 256
  these are 9 to 13, 28 to 32, 133 and 160.
\<close>

definition py_isspace :: "char \<Rightarrow> bool" where
  "py_isspace c =
     (let n = (of_char c :: nat)
      in (9 \<le> n \<and> n \<le> 13) \<or> (28 \<le> n \<and> n \<le> 32) \<or> n = 133 \<or> n = 160)"

definition strip :: "string \<Rightarrow> string" where
  "strip s = rev (dropWhile py_isspace (rev (dropWhile py_isspace s)))"

text \<open>\<^verbatim>\<open>line.rstrip("\n")\<close> removes every line feed at the end.\<close>

definition rstrip_newline :: "string \<Rightarrow> string" where
  "rstrip_newline s = rev (dropWhile (\<lambda>c. c = CHR 0x0A) (rev s))"

definition startswith :: "string \<Rightarrow> string \<Rightarrow> bool" where
  "startswith s p = (take (length p) s = p)"

text \<open>\<^verbatim>\<open>s.split(sep)\<close> for a separator of one character: one more piece than separators.\<close>

fun py_split :: "char \<Rightarrow> string \<Rightarrow> string list" where
  "py_split sep [] = [[]]"
| "py_split sep (c # cs) =
     (if c = sep then [] # py_split sep cs
      else (case py_split sep cs of
              [] \<Rightarrow> [[c]]
            | w # ws \<Rightarrow> (c # w) # ws))"

text \<open>
  \<^verbatim>\<open>int(s)\<close> on a string. The interpreter skips white space at both ends (for \<^verbatim>\<open>int\<close>
  the code points 9 to 13 and 32, and 133 and 160, which it maps to a space),
  reads one optional sign, and then wants decimal digits, with single underscores allowed
  between two digits. Anything else is a \<^verbatim>\<open>ValueError\<close>. So is a literal of more than
  \<open>maxd\<close> digits, where \<open>maxd\<close> is the interpreter's \<^verbatim>\<open>int_max_str_digits\<close> (4300 unless
  configured; 0 switches the limit off, and it is not looked at up to 640 digits).
\<close>

definition int_isspace :: "char \<Rightarrow> bool" where
  "int_isspace c =
     (let n = (of_char c :: nat) in (9 \<le> n \<and> n \<le> 13) \<or> n = 32 \<or> n = 133 \<or> n = 160)"

definition is_digit :: "char \<Rightarrow> bool" where
  "is_digit c = (48 \<le> (of_char c :: nat) \<and> (of_char c :: nat) \<le> 57)"

definition digit_value :: "char \<Rightarrow> int" where
  "digit_value c = int (of_char c) - 48"

text \<open>No underscore next to another one.\<close>

fun single_underscores :: "string \<Rightarrow> bool" where
  "single_underscores (a # b # cs) =
     (\<not> (a = CHR ''_'' \<and> b = CHR ''_'') \<and> single_underscores (b # cs))"
| "single_underscores _ = True"

definition digits_ok :: "string \<Rightarrow> bool" where
  "digits_ok s =
     (s \<noteq> [] \<and> hd s \<noteq> CHR ''_'' \<and> last s \<noteq> CHR ''_'' \<and> single_underscores s \<and>
      list_all (\<lambda>c. is_digit c \<or> c = CHR ''_'') s)"

definition digits_value :: "string \<Rightarrow> int" where
  "digits_value s = fold (\<lambda>c v. if c = CHR ''_'' then v else 10 * v + digit_value c) s 0"

definition py_int :: "nat \<Rightarrow> string \<Rightarrow> py_error + int" where
  "py_int maxd s =
     (let t = dropWhile int_isspace s;
          neg = (t \<noteq> [] \<and> hd t = CHR ''-'');
          r = (if t \<noteq> [] \<and> (hd t = CHR ''+'' \<or> hd t = CHR ''-'') then tl t else t);
          body = rev (dropWhile int_isspace (rev r));
          nd = length (filter is_digit body)
      in if \<not> digits_ok body then Inl ValueError
         else if 0 < maxd \<and> 640 < nd \<and> maxd < nd then Inl ValueError
         else Inr (if neg then - digits_value body else digits_value body))"

text \<open>
  The body of the loop of lines 38 to 73 on one line of the file: \<open>None\<close> where it
  reaches a \<^verbatim>\<open>continue\<close>, the tuple it appends otherwise.
\<close>

definition parse_row :: "nat \<Rightarrow> string \<Rightarrow> transition option" where
  "parse_row maxd raw =
     (let line = rstrip_newline raw
      in if startswith (strip line) ''+'' then None
         else if \<not> startswith (strip line) ''|'' then None
         else
           let cols = map strip (py_split CHR ''|'' line)
           in if length cols < 5 then None
              else
                let time_str = cols ! 1;
                    pid = cols ! 2;
                    old_state = cols ! 3;
                    new_state = cols ! 4
                in if startswith time_str ''Time'' then None
                   else (case py_int maxd time_str of
                           Inl _ \<Rightarrow> None
                         | Inr time \<Rightarrow> Some (time, pid, old_state, new_state)))"

fun parse_loop :: "nat \<Rightarrow> string list \<Rightarrow> transition list \<Rightarrow> transition list" where
  "parse_loop maxd [] transitions = transitions"
| "parse_loop maxd (raw # rest) transitions =
     parse_loop maxd rest
       (case parse_row maxd raw of None \<Rightarrow> transitions | Some tr \<Rightarrow> transitions @ [tr])"

text \<open>
  \<^verbatim>\<open>parse_execution_file\<close>, from the lines that \<^verbatim>\<open>readlines\<close> returns for the file.
\<close>

definition parse_execution_file :: "nat \<Rightarrow> string list \<Rightarrow> transition list" where
  "parse_execution_file maxd lines = parse_loop maxd lines []"

text \<open>
  A line as the loop sees it: whether it is a row of the table, and the pieces between
  its bars, each stripped.
\<close>

definition is_table_row :: "string \<Rightarrow> bool" where
  "is_table_row raw = startswith (strip (rstrip_newline raw)) ''|''"

definition row_fields :: "string \<Rightarrow> string list" where
  "row_fields raw = map strip (py_split CHR ''|'' (rstrip_newline raw))"

subsection \<open>What a trace says about one process\<close>

text \<open>
  These definitions read a trace directly, without the scan; the theorems below relate
  the dictionaries of the scan to them.
\<close>

definition is_arrival :: "transition \<Rightarrow> bool" where
  "is_arrival tr = (case tr of (time, pid, old, new) \<Rightarrow> new = ''READY'' \<and> old = ''NEW'')"

definition is_termination :: "transition \<Rightarrow> bool" where
  "is_termination tr = (case tr of (time, pid, old, new) \<Rightarrow> new = ''TERMINATED'')"

definition pid_of :: "transition \<Rightarrow> string" where
  "pid_of tr = (case tr of (time, pid, old, new) \<Rightarrow> pid)"

definition time_of :: "transition \<Rightarrow> int" where
  "time_of tr = (case tr of (time, pid, old, new) \<Rightarrow> time)"

definition proc_trace :: "transition list \<Rightarrow> string \<Rightarrow> transition list" where
  "proc_trace ts p = filter (\<lambda>tr. pid_of tr = p) ts"

definition arrival_times :: "transition list \<Rightarrow> string \<Rightarrow> int list" where
  "arrival_times ts p = map time_of (filter (\<lambda>tr. pid_of tr = p \<and> is_arrival tr) ts)"

definition first_arrival :: "transition list \<Rightarrow> string \<Rightarrow> int option" where
  "first_arrival ts p = (case arrival_times ts p of [] \<Rightarrow> None | x # xs \<Rightarrow> Some x)"

definition last_arrival :: "transition list \<Rightarrow> string \<Rightarrow> int option" where
  "last_arrival ts p = (case arrival_times ts p of [] \<Rightarrow> None | x # xs \<Rightarrow> Some (last (x # xs)))"

definition termination_times :: "transition list \<Rightarrow> string \<Rightarrow> int list" where
  "termination_times ts p =
     map time_of (filter (\<lambda>tr. pid_of tr = p \<and> is_termination tr) ts)"

definition recorded_finish :: "transition list \<Rightarrow> string \<Rightarrow> int option" where
  "recorded_finish ts p =
     (case termination_times ts p of [] \<Rightarrow> None | x # xs \<Rightarrow> Some (last (x # xs)))"

definition has_terminated :: "transition list \<Rightarrow> bool" where
  "has_terminated ts = list_ex is_termination ts"

text \<open>The processes that arrive, and those that terminate, each once, in order of appearance.\<close>

definition arrived_pids :: "transition list \<Rightarrow> string list" where
  "arrived_pids ts = remdups (map pid_of (filter is_arrival ts))"

definition completed_pids :: "transition list \<Rightarrow> string list" where
  "completed_pids ts = remdups (map pid_of (filter is_termination ts))"

text \<open>The largest of the finish times on record, one for each process that terminated.\<close>

definition latest_completion :: "transition list \<Rightarrow> int" where
  "latest_completion ts = Max (set (List.map_filter (recorded_finish ts) (completed_pids ts)))"

text \<open>
  A well-formed lifecycle of one process: it arrives (\<^verbatim>\<open>NEW\<close> to \<^verbatim>\<open>READY\<close>), is dispatched
  (\<^verbatim>\<open>READY\<close> to \<^verbatim>\<open>RUNNING\<close>), never enters \<^verbatim>\<open>READY\<close> again, ends with a transition into
  \<^verbatim>\<open>TERMINATED\<close>, and its clock does not run backwards (the time of a transition record is
  monotonic within a trace).
\<close>

fun lifecycle_ok :: "transition list \<Rightarrow> bool" where
  "lifecycle_ok ((t0, p0, old0, new0) # (t1, p1, old1, new1) # rest) =
     (old0 = ''NEW'' \<and> new0 = ''READY'' \<and> old1 = ''READY'' \<and> new1 = ''RUNNING'' \<and>
      list_all (\<lambda>(t, p, old, new). new \<noteq> ''READY'') rest \<and>
      is_termination (last ((t1, p1, old1, new1) # rest)) \<and>
      sorted (t0 # t1 # map time_of rest))"
| "lifecycle_ok _ = False"

definition well_formed :: "transition list \<Rightarrow> bool" where
  "well_formed ts = list_all (\<lambda>p. lifecycle_ok (proc_trace ts p)) (remdups (map pid_of ts))"

text \<open>Two states agree on a process when all five dictionaries have the same entry for it.\<close>

definition timeline :: "scan_state \<Rightarrow> string \<Rightarrow> int option \<times> int option \<times> int option \<times> int option \<times> int option" where
  "timeline s p =
     (map_of (arrivals s) p, map_of (first_run s) p, map_of (finish_time s) p,
      map_of (wait_time s) p, map_of (last_ready_time s) p)"

text \<open>No key twice in any of the five dictionaries.\<close>

definition keys_distinct :: "scan_state \<Rightarrow> bool" where
  "keys_distinct s =
     (distinct (map fst (arrivals s)) \<and> distinct (map fst (first_run s)) \<and>
      distinct (map fst (finish_time s)) \<and> distinct (map fst (wait_time s)) \<and>
      distinct (map fst (last_ready_time s)))"

text \<open>
  Bounds on a state: the times it holds are at most \<open>B\<close> in magnitude, and the waits on
  record add up to at most \<open>2 * B\<close> for each of the \<open>k\<close> transitions scanned.
\<close>

definition values_within :: "int \<Rightarrow> int dict \<Rightarrow> bool" where
  "values_within B d = list_all (\<lambda>x. \<bar>snd x\<bar> \<le> B) d"

definition abs_total :: "int dict \<Rightarrow> int" where
  "abs_total d = sum_list (map (\<lambda>x. \<bar>snd x\<bar>) d)"

definition bounded_state :: "int \<Rightarrow> nat \<Rightarrow> scan_state \<Rightarrow> bool" where
  "bounded_state B k s =
     (values_within B (arrivals s) \<and> values_within B (first_run s) \<and>
      values_within B (finish_time s) \<and> values_within B (last_ready_time s) \<and>
      abs_total (wait_time s) \<le> 2 * B * int k)"

text \<open>Every clock value of the trace is at most \<open>B\<close> in magnitude.\<close>

definition times_within :: "int \<Rightarrow> transition list \<Rightarrow> bool" where
  "times_within B ts = list_all (\<lambda>tr. \<bar>time_of tr\<bar> \<le> B) ts"

subsection \<open>Example traces\<close>

definition multi_wait_trace :: "transition list" where
  "multi_wait_trace =
     [(0, ''P'', ''NEW'', ''READY''), (2, ''P'', ''READY'', ''RUNNING''),
      (4, ''P'', ''RUNNING'', ''WAITING''), (6, ''P'', ''WAITING'', ''READY''),
      (10, ''P'', ''READY'', ''RUNNING''), (12, ''P'', ''RUNNING'', ''TERMINATED'')]"

definition repeated_arrival_trace :: "transition list" where
  "repeated_arrival_trace =
     [(0, ''P'', ''NEW'', ''READY''), (3, ''P'', ''NEW'', ''READY''),
      (5, ''P'', ''READY'', ''RUNNING''), (9, ''P'', ''RUNNING'', ''TERMINATED'')]"

definition redispatch_trace :: "transition list" where
  "redispatch_trace =
     [(0, ''P'', ''NEW'', ''READY''), (2, ''P'', ''READY'', ''RUNNING''),
      (4, ''P'', ''RUNNING'', ''WAITING''), (7, ''P'', ''WAITING'', ''RUNNING''),
      (9, ''P'', ''RUNNING'', ''TERMINATED'')]"


definition interleaved_trace :: "transition list" where
  "interleaved_trace =
     [(0, ''A'', ''NEW'', ''READY''), (0, ''A'', ''READY'', ''RUNNING''),
      (1, ''B'', ''NEW'', ''READY''), (3, ''A'', ''RUNNING'', ''TERMINATED''),
      (3, ''B'', ''READY'', ''RUNNING''), (8, ''B'', ''RUNNING'', ''TERMINATED'')]"

definition long_wait_trace :: "transition list" where
  "long_wait_trace =
     [(0, ''P'', ''NEW'', ''READY''), (2 ^ 1024, ''P'', ''READY'', ''RUNNING''),
      (2 ^ 1024, ''P'', ''RUNNING'', ''TERMINATED'')]"

definition late_finish_trace :: "transition list" where
  "late_finish_trace =
     [(0, ''Q'', ''NEW'', ''READY''), (0, ''Q'', ''READY'', ''RUNNING''),
      (10 ^ 400, ''Q'', ''RUNNING'', ''TERMINATED'')]"

definition third_trace :: "transition list" where
  "third_trace =
     [(0, ''P'', ''NEW'', ''READY''), (1, ''P'', ''READY'', ''RUNNING''),
      (3, ''P'', ''RUNNING'', ''TERMINATED'')]"

definition negative_time_lines :: "string list" where
  "negative_time_lines = [''| -5 | 1 | NEW | READY |'']"

section \<open>Properties of the scan\<close>

lemmas step_defs = step_def on_arrival_def on_running_def on_terminated_def on_ready_again_def

lemmas scan_eval = scan_def init_state_def step_defs

lemma is_arrival_simp: "is_arrival (t, q, old, new) = (new = ''READY'' \<and> old = ''NEW'')"
  by (simp add: is_arrival_def)

lemma is_termination_simp: "is_termination (t, q, old, new) = (new = ''TERMINATED'')"
  by (simp add: is_termination_def)

lemma pid_of_simp: "pid_of (t, q, old, new) = q"
  by (simp add: pid_of_def)

lemma time_of_simp: "time_of (t, q, old, new) = t"
  by (simp add: time_of_def)

lemmas tr_simps = is_arrival_simp is_termination_simp pid_of_simp time_of_simp

subsection \<open>One step, read at one process\<close>

lemma step_arrivals:
  "map_of (arrivals (step (t, q, old, new) s)) p =
     (if q = p \<and> new = ''READY'' \<and> old = ''NEW'' then Some t else map_of (arrivals s) p)"
  by (auto simp: step_defs AList.update_conv' Let_def split: option.splits)

lemma step_finish_time:
  "map_of (finish_time (step (t, q, old, new) s)) p =
     (if q = p \<and> new = ''TERMINATED'' then Some t else map_of (finish_time s) p)"
  by (auto simp: step_defs AList.update_conv' Let_def split: option.splits)

lemma step_first_run:
  "map_of (first_run (step (t, q, old, new) s)) p =
     (if q = p \<and> new = ''RUNNING'' \<and> map_of (first_run s) p = None then Some t
      else map_of (first_run s) p)"
  by (auto simp: step_defs AList.update_conv' Let_def split: option.splits)

lemma step_last_ready_time:
  "map_of (last_ready_time (step (t, q, old, new) s)) p =
     (if q = p \<and> new = ''READY'' \<and> (old = ''NEW'' \<or> old = ''WAITING'') then Some t
      else map_of (last_ready_time s) p)"
  by (auto simp: step_defs AList.update_conv' Let_def split: option.splits)

lemma step_wait_time:
  "map_of (wait_time (step (t, q, old, new) s)) p =
     (if q = p \<and> new = ''RUNNING''
      then (case map_of (last_ready_time s) p of
              None \<Rightarrow> map_of (wait_time s) p
            | Some r \<Rightarrow>
                Some ((case map_of (wait_time s) p of None \<Rightarrow> 0 | Some w \<Rightarrow> w) + (t - r)))
      else map_of (wait_time s) p)"
  by (auto simp: step_defs AList.update_conv' Let_def split: option.splits)

lemmas step_lookup =
  step_arrivals step_finish_time step_first_run step_last_ready_time step_wait_time

subsection \<open>The arrival on record is the last one\<close>

lemma arrivals_scan_from:
  "map_of (arrivals (scan_from s ts)) p =
     (case last_arrival ts p of None \<Rightarrow> map_of (arrivals s) p | Some a \<Rightarrow> Some a)"
proof (induction ts arbitrary: s)
  case Nil
  show ?case by (simp add: last_arrival_def arrival_times_def)
next
  case (Cons tr ts)
  obtain t q old new where tr: "tr = (t, q, old, new)" by (cases tr)
  show ?case
    unfolding tr scan_from.simps Cons.IH
    by (simp add: step_arrivals last_arrival_def arrival_times_def tr_simps
        split: list.splits)
qed

lemma arrivals_scan: "map_of (arrivals (scan ts)) p = last_arrival ts p"
  by (simp add: scan_def arrivals_scan_from init_state_def split: option.splits)

text \<open>
  C1, as the code has it. Line 107 assigns \<^verbatim>\<open>arrivals[pid] = time\<close> at every
  \<^verbatim>\<open>NEW\<close> to \<^verbatim>\<open>READY\<close> transition, with no test for a value already there. So the
  arrival time on record for a process is the time of its last such transition in the
  trace, and there is none on record exactly when the trace has no such transition.
\<close>

theorem arrival_is_last_new_ready:
  "map_of (arrivals (scan ts)) p = last_arrival ts p"
  by (rule arrivals_scan)

text \<open>
  C1 as stated fails: in \<open>repeated_arrival_trace\<close> process \<open>P\<close> has \<^verbatim>\<open>NEW\<close> to
  \<^verbatim>\<open>READY\<close> transitions at times 0 and 3. The first one is at 0; the scan records 3.
\<close>

theorem arrival_first_wins_counterexample:
  "first_arrival repeated_arrival_trace ''P'' = Some 0 \<and>
   map_of (arrivals (scan repeated_arrival_trace)) ''P'' = Some 3 \<and>
   map_of (arrivals (scan repeated_arrival_trace)) ''P''
     \<noteq> first_arrival repeated_arrival_trace ''P''"
  by (simp add: repeated_arrival_trace_def first_arrival_def arrival_times_def tr_simps
      scan_eval)

subsection \<open>A waiting interval is not consumed\<close>

text \<open>
  C2. In \<open>redispatch_trace\<close> process \<open>P\<close> becomes \<^verbatim>\<open>READY\<close> at 0, runs at 2 (a wait
  of 2), blocks at 4, goes from \<^verbatim>\<open>WAITING\<close> to \<^verbatim>\<open>RUNNING\<close> at 7 without entering
  \<^verbatim>\<open>READY\<close> in between, and terminates at 9. Lines 116 and 117 find the entry of time 0
  still in \<^verbatim>\<open>last_ready_time\<close> and add \<open>7 - 0\<close>: the wait on record is 9, not 2, and
  so is the average wait returned.
\<close>

theorem redispatch_adds_old_interval:
  "map_of (wait_time (scan (take 2 redispatch_trace))) ''P'' = Some 2 \<and>
   map_of (wait_time (scan redispatch_trace)) ''P'' = Some 9 \<and>
   compute_metrics redispatch_trace =
     Inr \<lparr>throughput = 1 / 9, avg_wait_time = 9, avg_turnaround = 9, avg_response = 2\<rparr>"
  by (simp add: redispatch_trace_def scan_eval compute_metrics_def turnaround_def
      response_def values_of_def bind_res_def py_truediv_def float_max_bound_def)

subsection \<open>The scenario with two waits\<close>

lemma scan_multi_wait_trace:
  "scan multi_wait_trace =
     \<lparr>arrivals = [(''P'', 0)], first_run = [(''P'', 2)], finish_time = [(''P'', 12)],
      wait_time = [(''P'', 6)], last_ready_time = [(''P'', 6)]\<rparr>"
  by (simp add: multi_wait_trace_def scan_eval)

text \<open>
  C7. For the trace of process \<open>P\<close> with \<^verbatim>\<open>NEW\<close> to \<^verbatim>\<open>READY\<close> at 0, \<^verbatim>\<open>READY\<close> to
  \<^verbatim>\<open>RUNNING\<close> at 2, \<^verbatim>\<open>RUNNING\<close> to \<^verbatim>\<open>WAITING\<close> at 4, \<^verbatim>\<open>WAITING\<close> to \<^verbatim>\<open>READY\<close> at 6,
  \<^verbatim>\<open>READY\<close> to \<^verbatim>\<open>RUNNING\<close> at 10 and \<^verbatim>\<open>RUNNING\<close> to \<^verbatim>\<open>TERMINATED\<close> at 12, the accumulated
  wait of \<open>P\<close> is 6, its turnaround 12 and its response 2.
\<close>

theorem multi_wait_scenario:
  "map_of (wait_time (scan multi_wait_trace)) ''P'' = Some 6 \<and>
   map_of (turnaround (scan multi_wait_trace)) ''P'' = Some 12 \<and>
   map_of (response (scan multi_wait_trace)) ''P'' = Some 2"
  by (simp add: scan_multi_wait_trace turnaround_def response_def)

subsection \<open>Processes do not interfere\<close>

lemma timeline_step_same:
  assumes "timeline s p = timeline s' p"
  shows "timeline (step (t, p, old, new) s) p = timeline (step (t, p, old, new) s') p"
proof -
  from assms have "map_of (arrivals s) p = map_of (arrivals s') p"
    and "map_of (first_run s) p = map_of (first_run s') p"
    and "map_of (finish_time s) p = map_of (finish_time s') p"
    and "map_of (wait_time s) p = map_of (wait_time s') p"
    and "map_of (last_ready_time s) p = map_of (last_ready_time s') p"
    by (simp_all add: timeline_def)
  then show ?thesis
    by (simp add: timeline_def step_lookup split: option.splits)
qed

lemma timeline_step_other:
  "q \<noteq> p \<Longrightarrow> timeline (step (t, q, old, new) s) p = timeline s p"
  by (simp add: timeline_def step_lookup)

lemma timeline_scan_from_proc_trace:
  "timeline s p = timeline s' p \<Longrightarrow>
   timeline (scan_from s ts) p = timeline (scan_from s' (proc_trace ts p)) p"
proof (induction ts arbitrary: s s')
  case Nil
  then show ?case by (simp add: proc_trace_def)
next
  case (Cons tr ts)
  obtain t q old new where tr: "tr = (t, q, old, new)" by (cases tr)
  show ?case
  proof (cases "q = p")
    case True
    have "timeline (step tr s) p = timeline (step tr s') p"
      unfolding tr True by (rule timeline_step_same [OF Cons.prems])
    from Cons.IH [OF this] show ?thesis
      using True tr by (simp add: proc_trace_def pid_of_simp)
  next
    case False
    have "timeline (step tr s) p = timeline s' p"
      unfolding tr using timeline_step_other [OF False] Cons.prems by simp
    from Cons.IH [OF this] show ?thesis
      using False tr by (simp add: proc_trace_def pid_of_simp)
  qed
qed

lemma timeline_scan_proc_trace: "timeline (scan ts) p = timeline (scan (proc_trace ts p)) p"
  unfolding scan_def by (rule timeline_scan_from_proc_trace) simp

text \<open>
  C9. For every trace and every process \<open>p\<close>, the entries of \<open>p\<close> in the five dictionaries
  of the scan (arrival, first run, finish, accumulated wait and last ready time) are the
  entries that the scan of the transitions of \<open>p\<close> alone gives: the transitions of other
  processes change nothing for \<open>p\<close>.
\<close>

theorem timeline_independent_of_other_processes:
  "map_of (arrivals (scan ts)) p = map_of (arrivals (scan (proc_trace ts p))) p \<and>
   map_of (first_run (scan ts)) p = map_of (first_run (scan (proc_trace ts p))) p \<and>
   map_of (finish_time (scan ts)) p = map_of (finish_time (scan (proc_trace ts p))) p \<and>
   map_of (wait_time (scan ts)) p = map_of (wait_time (scan (proc_trace ts p))) p \<and>
   map_of (last_ready_time (scan ts)) p = map_of (last_ready_time (scan (proc_trace ts p))) p"
  using timeline_scan_proc_trace [of ts p] by (simp add: timeline_def)

subsection \<open>The finish time on record is the last one\<close>

lemma finish_time_scan_from:
  "map_of (finish_time (scan_from s ts)) p =
     (case recorded_finish ts p of None \<Rightarrow> map_of (finish_time s) p | Some f \<Rightarrow> Some f)"
proof (induction ts arbitrary: s)
  case Nil
  show ?case by (simp add: recorded_finish_def termination_times_def)
next
  case (Cons tr ts)
  obtain t q old new where tr: "tr = (t, q, old, new)" by (cases tr)
  show ?case
    unfolding tr scan_from.simps Cons.IH
    by (simp add: step_finish_time recorded_finish_def termination_times_def tr_simps
        split: list.splits)
qed

lemma finish_time_scan: "map_of (finish_time (scan ts)) p = recorded_finish ts p"
  by (simp add: scan_def finish_time_scan_from init_state_def split: option.splits)

lemma recorded_finish_Some_iff:
  "(\<exists>f. recorded_finish ts p = Some f) \<longleftrightarrow> p \<in> set (completed_pids ts)"
proof -
  have "(\<exists>f. recorded_finish ts p = Some f) \<longleftrightarrow> termination_times ts p \<noteq> []"
    by (simp add: recorded_finish_def split: list.splits)
  also have "\<dots> \<longleftrightarrow> (\<exists>tr \<in> set ts. pid_of tr = p \<and> is_termination tr)"
    by (auto simp: termination_times_def filter_empty_conv)
  also have "\<dots> \<longleftrightarrow> p \<in> set (completed_pids ts)"
    by (auto simp: completed_pids_def)
  finally show ?thesis .
qed

lemma last_arrival_Some_iff:
  "(\<exists>a. last_arrival ts p = Some a) \<longleftrightarrow> p \<in> set (arrived_pids ts)"
proof -
  have "(\<exists>a. last_arrival ts p = Some a) \<longleftrightarrow> arrival_times ts p \<noteq> []"
    by (simp add: last_arrival_def split: list.splits)
  also have "\<dots> \<longleftrightarrow> (\<exists>tr \<in> set ts. pid_of tr = p \<and> is_arrival tr)"
    by (auto simp: arrival_times_def filter_empty_conv)
  also have "\<dots> \<longleftrightarrow> p \<in> set (arrived_pids ts)"
    by (auto simp: arrived_pids_def)
  finally show ?thesis .
qed

lemma completed_pids_empty_iff: "completed_pids ts = [] \<longleftrightarrow> \<not> has_terminated ts"
  by (auto simp: completed_pids_def has_terminated_def list_ex_iff filter_empty_conv)

lemma finish_time_empty_iff: "finish_time (scan ts) = [] \<longleftrightarrow> \<not> has_terminated ts"
proof -
  have "finish_time (scan ts) = [] \<longleftrightarrow> map_of (finish_time (scan ts)) = Map.empty"
    by simp
  also have "\<dots> \<longleftrightarrow> (\<forall>p. recorded_finish ts p = None)"
    by (simp add: fun_eq_iff finish_time_scan)
  also have "\<dots> \<longleftrightarrow> (\<forall>p. p \<notin> set (completed_pids ts))"
    using recorded_finish_Some_iff [of ts] by (metis not_Some_eq)
  also have "\<dots> \<longleftrightarrow> \<not> has_terminated ts"
    using completed_pids_empty_iff [of ts] by auto
  finally show ?thesis .
qed

subsection \<open>Keys are distinct\<close>

lemma step_keys_distinct: "keys_distinct s \<Longrightarrow> keys_distinct (step tr s)"
  by (cases tr)
    (auto simp: keys_distinct_def step_defs Let_def AList.distinct_update split: option.splits)

lemma scan_from_keys_distinct: "keys_distinct s \<Longrightarrow> keys_distinct (scan_from s ts)"
  by (induction ts arbitrary: s) (simp_all add: step_keys_distinct)

lemma scan_keys_distinct: "keys_distinct (scan ts)"
  unfolding scan_def by (rule scan_from_keys_distinct) (simp add: keys_distinct_def init_state_def)

lemma length_arrivals_scan: "length (arrivals (scan ts)) = length (arrived_pids ts)"
proof -
  have d: "distinct (map fst (arrivals (scan ts)))"
    using scan_keys_distinct [of ts] by (simp add: keys_distinct_def)
  have "set (map fst (arrivals (scan ts))) = dom (map_of (arrivals (scan ts)))"
    by (simp add: dom_map_of_conv_image_fst)
  also have "\<dots> = set (arrived_pids ts)"
    using last_arrival_Some_iff [of ts] by (auto simp: arrivals_scan dom_def)
  finally have "card (set (map fst (arrivals (scan ts)))) = card (set (arrived_pids ts))"
    by (rule arg_cong)
  moreover have "card (set (map fst (arrivals (scan ts)))) = length (map fst (arrivals (scan ts)))"
    using d by (rule distinct_card)
  moreover have "card (set (arrived_pids ts)) = length (arrived_pids ts)"
    by (rule distinct_card) (simp add: arrived_pids_def)
  ultimately show ?thesis by simp
qed

lemma arrivals_empty_iff: "arrivals (scan ts) = [] \<longleftrightarrow> arrived_pids ts = []"
  using length_arrivals_scan [of ts] by (metis length_0_conv)

subsection \<open>The largest finish time\<close>

lemma py_max_Max: "xs \<noteq> [] \<Longrightarrow> py_max xs = Inr (Max (set xs))"
proof (cases xs)
  case Nil
  assume "xs \<noteq> []"
  with Nil show ?thesis by simp
next
  case (Cons x ys)
  have "(\<lambda>v m. if m < v then v else m) = (max :: int \<Rightarrow> int \<Rightarrow> int)"
    by (auto simp: fun_eq_iff max_def)
  then have "py_max xs = Inr (fold max ys x)"
    using Cons by simp
  also have "fold max ys x = Max (set (x # ys))"
    by (rule Max.set_eq_fold [symmetric])
  finally show ?thesis
    using Cons by simp
qed

lemma set_finish_values:
  "set (values_of (finish_time (scan ts))) =
   set (List.map_filter (recorded_finish ts) (completed_pids ts))"
proof -
  have d: "distinct (map fst (finish_time (scan ts)))"
    using scan_keys_distinct [of ts] by (simp add: keys_distinct_def)
  have "set (values_of (finish_time (scan ts))) = ran (map_of (finish_time (scan ts)))"
    using d by (simp add: values_of_def ran_distinct)
  also have "\<dots> = {f. \<exists>p. recorded_finish ts p = Some f}"
    by (simp add: ran_def finish_time_scan)
  also have "\<dots> = set (List.map_filter (recorded_finish ts) (completed_pids ts))"
  proof (rule set_eqI)
    fix f
    have "f \<in> set (List.map_filter (recorded_finish ts) (completed_pids ts)) \<longleftrightarrow>
          (\<exists>p \<in> set (completed_pids ts). recorded_finish ts p = Some f)"
      by (force simp: List.map_filter_def)
    also have "\<dots> \<longleftrightarrow> (\<exists>p. recorded_finish ts p = Some f)"
      using recorded_finish_Some_iff [of ts] by blast
    finally show "f \<in> {f. \<exists>p. recorded_finish ts p = Some f} \<longleftrightarrow>
          f \<in> set (List.map_filter (recorded_finish ts) (completed_pids ts))"
      by simp
  qed
  finally show ?thesis .
qed

lemma total_finish_time:
  "has_terminated ts \<Longrightarrow>
   py_max (values_of (finish_time (scan ts))) = Inr (latest_completion ts)"
proof -
  assume "has_terminated ts"
  then have "values_of (finish_time (scan ts)) \<noteq> []"
    using finish_time_empty_iff [of ts] by (simp add: values_of_def)
  then show ?thesis
    by (simp add: py_max_Max set_finish_values latest_completion_def)
qed

subsection \<open>The result of \<open>compute_metrics\<close>\<close>

lemma py_truediv_cases:
  "b \<noteq> 0 \<Longrightarrow> py_truediv a b = Inl OverflowError \<or> py_truediv a b = Inr (of_int a / of_int b)"
  by (simp add: py_truediv_def)

text \<open>The denominator \<open>n\<close> and the three sums, as \<open>compute_metrics\<close> forms them.\<close>

lemma compute_metrics_unfold:
  assumes "has_terminated ts"
  shows "compute_metrics ts =
     (let n = (if arrived_pids ts = [] then 1 else int (length (arrived_pids ts)))
      in bind_res (if 0 < latest_completion ts then py_truediv n (latest_completion ts)
                   else Inr 0) (\<lambda>thr.
         bind_res (py_truediv (sum_list (values_of (wait_time (scan ts)))) n) (\<lambda>aw.
         bind_res (py_truediv (sum_list (values_of (turnaround (scan ts)))) n) (\<lambda>atu.
         bind_res (py_truediv (sum_list (values_of (response (scan ts)))) n) (\<lambda>ar.
         Inr \<lparr>throughput = thr, avg_wait_time = aw, avg_turnaround = atu,
              avg_response = ar\<rparr>)))))"
proof -
  have ne: "finish_time (scan ts) \<noteq> []"
    using assms finish_time_empty_iff [of ts] by simp
  have pos: "0 < (if arrived_pids ts = [] then 1 else int (length (arrived_pids ts)))"
    by simp
  show ?thesis
    unfolding compute_metrics_def Let_def
    using ne pos
    by (simp add: total_finish_time [OF assms] bind_res_def length_arrivals_scan
        arrivals_empty_iff split: sum.splits)
qed

lemma compute_metrics_no_termination:
  "\<not> has_terminated ts \<Longrightarrow> compute_metrics ts = Inl RuntimeError"
  using finish_time_empty_iff [of ts] by (simp add: compute_metrics_def Let_def)

lemma compute_metrics_cases:
  assumes "has_terminated ts"
  shows "compute_metrics ts = Inl OverflowError \<or> (\<exists>m. compute_metrics ts = Inr m)"
proof -
  define n where "n = (if arrived_pids ts = [] then 1 else int (length (arrived_pids ts)))"
  have n: "n \<noteq> 0" by (simp add: n_def)
  note d = py_truediv_cases [OF n]
  show ?thesis
    unfolding compute_metrics_unfold [OF assms] Let_def n_def [symmetric]
    using d [of "latest_completion ts"] d [of "sum_list (values_of (wait_time (scan ts)))"]
      d [of "sum_list (values_of (turnaround (scan ts)))"]
      d [of "sum_list (values_of (response (scan ts)))"]
    by (auto simp: bind_res_def py_truediv_def)
qed

lemma throughput_value:
  assumes "compute_metrics ts = Inr m"
  shows "throughput m =
     (if 0 < latest_completion ts
      then of_int (if arrived_pids ts = [] then 1 else int (length (arrived_pids ts)))
             / of_int (latest_completion ts)
      else 0)"
proof -
  have ht: "has_terminated ts"
    using assms compute_metrics_no_termination [of ts] by auto
  show ?thesis
    using assms unfolding compute_metrics_unfold [OF ht] Let_def
    by (auto simp: bind_res_def py_truediv_def split: sum.splits if_splits)
qed

text \<open>
  C3, as the code has it. \<open>compute_metrics\<close> raises the \<^verbatim>\<open>RuntimeError\<close> of line 137
  exactly when no transition of the trace has the new state \<^verbatim>\<open>TERMINATED\<close>. When there
  is one, it returns a metrics record or one of its divisions raises \<^verbatim>\<open>OverflowError\<close>;
  no other error is raised.
\<close>

theorem runtime_error_iff_no_termination:
  "(compute_metrics ts = Inl RuntimeError \<longleftrightarrow> \<not> has_terminated ts) \<and>
   (has_terminated ts \<longrightarrow>
      compute_metrics ts = Inl OverflowError \<or> (\<exists>m. compute_metrics ts = Inr m))"
  using compute_metrics_no_termination [of ts] compute_metrics_cases [of ts] by auto

theorem runtime_error_iff_no_termination_witness:
  "compute_metrics [] = Inl RuntimeError \<and> \<not> has_terminated [] \<and>
   has_terminated multi_wait_trace \<and>
   (\<exists>m. compute_metrics multi_wait_trace = Inr m)"
proof -
  have h: "has_terminated multi_wait_trace"
    by (simp add: has_terminated_def multi_wait_trace_def tr_simps)
  have "compute_metrics multi_wait_trace \<noteq> Inl OverflowError"
    by (simp add: compute_metrics_def scan_multi_wait_trace turnaround_def response_def
        values_of_def bind_res_def py_truediv_def float_max_bound_def)
  then show ?thesis
    using runtime_error_iff_no_termination [of "[]"]
      runtime_error_iff_no_termination [of multi_wait_trace] h
    by (simp add: has_terminated_def)
qed

text \<open>
  C3 as stated fails: \<open>long_wait_trace\<close> has a transition into \<^verbatim>\<open>TERMINATED\<close>, and no
  metrics record is returned. The wait of \<open>P\<close> is \<open>2 ^ 1024\<close>, and the division of line
  144 raises \<^verbatim>\<open>OverflowError\<close>.
\<close>

theorem termination_present_error_counterexample:
  "has_terminated long_wait_trace \<and> compute_metrics long_wait_trace = Inl OverflowError"
  by (simp add: has_terminated_def long_wait_trace_def tr_simps compute_metrics_def scan_eval
      turnaround_def response_def values_of_def bind_res_def py_truediv_def float_max_bound_def)

subsection \<open>The float that is returned\<close>

lemma floor_rat_numeral_div:
  "\<lfloor>numeral a / numeral b :: rat\<rfloor> = numeral a div numeral b"
  by (metis floor_divide_of_int_eq of_int_numeral)

lemma ceiling_rat_numeral_div:
  "\<lceil>numeral a / numeral b :: rat\<rceil> = - (- numeral a div numeral b)"
  using ceiling_divide_eq_div [of "numeral a" "numeral b", where ?'a = rat] by simp

lemma floor_rat_neg_numeral_div:
  "\<lfloor>- (numeral a / numeral b) :: rat\<rfloor> = - numeral a div numeral b"
  by (metis floor_divide_of_int_eq minus_divide_left of_int_minus of_int_numeral)

lemmas binary64_eval = binary64_def floor_log2_def pow2_def round_half_even_def
  compute_floorlog Let_def floor_rat_numeral_div ceiling_rat_numeral_div
  floor_rat_neg_numeral_div

lemma pow2_add: "pow2 (a + b) = pow2 a * pow2 b"
  by (auto simp: pow2_def power_add nat_add_distrib field_simps
      simp flip: power_add)

lemma pow2_pos: "0 < pow2 e"
  by (simp add: pow2_def)

lemma pow2_mono: "a \<le> b \<Longrightarrow> pow2 a \<le> pow2 b"
proof -
  assume "a \<le> b"
  then obtain k where b: "b = a + int k"
    by (metis nat_0_le diff_ge_0_iff_ge add_diff_cancel_left' diff_add_cancel add.commute)
  have "(1::rat) \<le> 2 ^ k" by simp
  then have "pow2 a * 1 \<le> pow2 a * pow2 (int k)"
    using pow2_pos [of a] by (intro mult_left_mono) (simp_all add: pow2_def)
  then show ?thesis by (simp add: b pow2_add)
qed

text \<open>\<open>floor_log2\<close> finds the binade of a positive number.\<close>

lemma floor_log2_bounds:
  assumes "0 < q"
  shows "pow2 (floor_log2 q) \<le> q" and "q < pow2 (floor_log2 q + 1)"
proof -
  show "pow2 (floor_log2 q) \<le> q"
  proof (cases "1 \<le> q")
    case True
    let ?x = "nat \<lfloor>q\<rfloor>"
    have x: "0 < ?x" using True by simp
    have L: "1 \<le> floorlog 2 ?x" using x by (simp add: floorlog_def)
    have "2 ^ (floorlog 2 ?x - 1) \<le> ?x"
      using floorlog_bounds [of ?x 2] x by simp
    then have "rat_of_nat (2 ^ (floorlog 2 ?x - 1)) \<le> rat_of_nat ?x"
      by (simp only: of_nat_le_iff)
    also have "rat_of_nat ?x = rat_of_int \<lfloor>q\<rfloor>"
      using True by simp
    also have "\<dots> \<le> q" by simp
    finally have "2 ^ (floorlog 2 ?x - 1) \<le> q" by simp
    moreover have "nat (int (floorlog 2 ?x) - 1) = floorlog 2 ?x - 1"
      by simp
    ultimately show ?thesis
      using True L by (simp add: floor_log2_def pow2_def)
  next
    case False
    let ?N = "\<lceil>1 / q\<rceil>"
    let ?L = "floorlog 2 (nat (?N - 1))"
    have "1 < 1 / q" using False assms by simp
    then have N: "2 \<le> ?N" by (simp add: less_ceiling_iff le_less Suc_le_eq) linarith
    have "nat (?N - 1) < 2 ^ ?L"
      using floorlog_bounds [of "nat (?N - 1)" 2] N by simp
    then have "?N - 1 < 2 ^ ?L"
      using N by (simp add: nat_less_iff)
    then have "?N \<le> 2 ^ ?L" by simp
    then have "rat_of_int ?N \<le> rat_of_int (2 ^ ?L)"
      by (simp only: of_int_le_iff)
    moreover have "1 / q \<le> rat_of_int ?N"
      by (rule le_of_int_ceiling)
    ultimately have "1 / q \<le> rat_of_int (2 ^ ?L)"
      by (rule order_trans [rotated])
    then have "1 / q \<le> 2 ^ ?L" by simp
    then have "1 / 2 ^ ?L \<le> q"
      using assms by (simp add: field_simps)
    moreover have "1 \<le> ?L"
      using N by (simp add: floorlog_def)
    ultimately show ?thesis
      using False by (simp add: floor_log2_def pow2_def)
  qed
  show "q < pow2 (floor_log2 q + 1)"
  proof (cases "1 \<le> q")
    case True
    let ?x = "nat \<lfloor>q\<rfloor>"
    have x: "0 < ?x" using True by simp
    have "?x < 2 ^ floorlog 2 ?x"
      using floorlog_bounds [of ?x 2] x by simp
    then have "\<lfloor>q\<rfloor> < 2 ^ floorlog 2 ?x"
      using x by (simp add: nat_less_iff)
    then have "q < rat_of_int (2 ^ floorlog 2 ?x)"
      by (simp only: floor_less_iff)
    then show ?thesis
      using True by (simp add: floor_log2_def pow2_def)
  next
    case False
    let ?N = "\<lceil>1 / q\<rceil>"
    let ?L = "floorlog 2 (nat (?N - 1))"
    have "1 < 1 / q" using False assms by simp
    then have N: "2 \<le> ?N" by (simp add: less_ceiling_iff le_less Suc_le_eq) linarith
    have L: "1 \<le> ?L"
      using N by (simp add: floorlog_def)
    have "2 ^ (?L - 1) \<le> nat (?N - 1)"
      using floorlog_bounds [of "nat (?N - 1)" 2] N by simp
    then have "2 ^ (?L - 1) \<le> ?N - 1"
      using N by (simp add: le_nat_iff)
    then have "2 ^ (?L - 1) < ?N" by simp
    then have "rat_of_int (2 ^ (?L - 1)) < 1 / q"
      by (simp only: less_ceiling_iff)
    then have "q < 1 / 2 ^ (?L - 1)"
      using assms by (simp add: field_simps)
    moreover have "pow2 (- int ?L + 1) = 1 / 2 ^ (?L - 1)"
      using L by (cases "?L = 1") (auto simp: pow2_def nat_diff_distrib)
    ultimately show ?thesis
      using False by (simp add: floor_log2_def)
  qed
qed

text \<open>The rounding moves a number by at most half the distance between two floats.\<close>

lemma round_half_even_close: "\<bar>rat_of_int (round_half_even x) - x\<bar> \<le> 1 / 2"
proof -
  have "rat_of_int \<lfloor>x\<rfloor> \<le> x" and "x < rat_of_int \<lfloor>x\<rfloor> + 1"
    by linarith+
  then show ?thesis
    by (auto simp: round_half_even_def Let_def abs_le_iff)
qed

lemma binary64_close:
  assumes "q \<noteq> 0"
  shows "\<bar>binary64 q - q\<bar> \<le> pow2 (max (floor_log2 \<bar>q\<bar>) (- 1022) - 52) / 2"
proof -
  let ?ulp = "pow2 (max (floor_log2 \<bar>q\<bar>) (- 1022) - 52)"
  have u: "0 < ?ulp" by (rule pow2_pos)
  have "binary64 q - q = (rat_of_int (round_half_even (q / ?ulp)) - q / ?ulp) * ?ulp"
    using assms u by (simp add: binary64_def Let_def algebra_simps)
  then have "\<bar>binary64 q - q\<bar> = \<bar>rat_of_int (round_half_even (q / ?ulp)) - q / ?ulp\<bar> * ?ulp"
    using u by (simp add: abs_mult)
  also have "\<dots> \<le> (1 / 2) * ?ulp"
    using round_half_even_close [of "q / ?ulp"] u by (intro mult_right_mono) simp_all
  finally show ?thesis by simp
qed

lemma binary64_zero: "binary64 0 = 0"
  by (simp add: binary64_def)

lemma binary64_one_third: "binary64 (1 / 3) = 6004799503160661 / 18014398509481984"
  by (simp add: binary64_eval)

lemma binary64_one_tenth: "binary64 (1 / 10) = 3602879701896397 / 36028797018963968"
  by (simp add: binary64_eval)

lemma binary64_tie_to_even: "binary64 9007199254740993 = 9007199254740992"
  by (simp add: binary64_eval)

lemma binary64_small_values:
  "binary64 1 = 1" "binary64 3 = 3" "binary64 5 = 5" "binary64 (1 / 4) = 1 / 4"
  by (simp_all add: binary64_eval)

text \<open>A quotient below half the smallest float is rounded to zero, as \<^verbatim>\<open>1 / 10 ** 400\<close> is.\<close>

lemma binary64_underflow:
  assumes "0 < q" and "q < pow2 (- 1075)"
  shows "binary64 q = 0"
proof -
  have "floor_log2 q < - 1075"
  proof (rule ccontr)
    assume "\<not> floor_log2 q < - 1075"
    then have "pow2 (- 1075) \<le> pow2 (floor_log2 q)"
      by (intro pow2_mono) simp
    also have "\<dots> \<le> q"
      using assms(1) by (rule floor_log2_bounds)
    finally show False using assms(2) by simp
  qed
  then have e: "max (floor_log2 \<bar>q\<bar>) (- 1022) - 52 = - 1074"
    using assms(1) by simp
  have "pow2 (- 1075) = pow2 (- 1074) * pow2 (- 1)"
    using pow2_add [of "- 1074" "- 1"] by simp
  also have "pow2 (- 1) = 1 / 2"
    by (simp add: pow2_def)
  finally have "q < pow2 (- 1074) / 2"
    using assms(2) by simp
  then have lt: "q / pow2 (- 1074) < 1 / 2"
    using pow2_pos [of "- 1074"] by (simp add: field_simps)
  have ge: "0 \<le> q / pow2 (- 1074)"
    using assms(1) pow2_pos [of "- 1074"] by simp
  from lt have lt1: "q / pow2 (- 1074) < 1"
    by linarith
  have "\<lfloor>q / pow2 (- 1074)\<rfloor> = 0"
    using lt1 ge by (simp add: floor_eq_iff)
  then have "round_half_even (q / pow2 (- 1074)) = 0"
    using lt by (simp add: round_half_even_def Let_def)
  then show ?thesis
    using assms(1) unfolding binary64_def Let_def e by simp
qed

lemma binary64_tiny: "binary64 (1 / 10 ^ 400) = 0"
proof (rule binary64_underflow)
  show "(0::rat) < 1 / 10 ^ 400" by simp
  have "(2::rat) ^ 1075 < 10 ^ 400" by simp
  then show "(1::rat) / 10 ^ 400 < pow2 (- 1075)"
    by (simp add: pow2_def field_simps)
qed

lemma compute_metrics_float_cases:
  assumes "has_terminated ts"
  shows "compute_metrics_float ts = Inl OverflowError \<or>
     (\<exists>m. compute_metrics ts = Inr m \<and> compute_metrics_float ts = Inr (as_floats m))"
  using compute_metrics_cases [OF assms] by (auto simp: compute_metrics_float_def)

text \<open>
  C6, as the code has it. For every trace with a transition into \<^verbatim>\<open>TERMINATED\<close>, either
  a division of \<open>compute_metrics\<close> raises \<^verbatim>\<open>OverflowError\<close> and nothing is returned, or the
  throughput returned is the float nearest to \<open>n / total_finish_time\<close> when
  \<open>total_finish_time\<close> is positive and 0 otherwise, where \<open>n\<close> is the number of processes
  with an arrival on record, or 1 when there is none, and \<open>total_finish_time\<close> is the
  largest finish time on record.
\<close>

theorem throughput_is_float_of_n_over_total_finish_time:
  assumes "has_terminated ts"
  shows "compute_metrics_float ts = Inl OverflowError \<or>
     (\<exists>m. compute_metrics_float ts = Inr m \<and>
          throughput m =
            (if 0 < latest_completion ts
             then binary64
                    (of_int (if arrived_pids ts = [] then 1
                             else int (length (arrived_pids ts)))
                       / of_int (latest_completion ts))
             else 0))"
proof -
  from compute_metrics_float_cases [OF assms] show ?thesis
  proof
    assume "compute_metrics_float ts = Inl OverflowError"
    then show ?thesis by simp
  next
    assume "\<exists>m. compute_metrics ts = Inr m \<and> compute_metrics_float ts = Inr (as_floats m)"
    then obtain m where m: "compute_metrics ts = Inr m"
      and f: "compute_metrics_float ts = Inr (as_floats m)"
      by blast
    have "throughput (as_floats m) = binary64 (throughput m)"
      by (simp add: as_floats_def)
    then have "throughput (as_floats m) =
        (if 0 < latest_completion ts
         then binary64
                (of_int (if arrived_pids ts = [] then 1 else int (length (arrived_pids ts)))
                   / of_int (latest_completion ts))
         else 0)"
      using throughput_value [OF m] by (simp add: binary64_zero)
    then show ?thesis
      using f by blast
  qed
qed

theorem throughput_is_float_of_n_over_total_finish_time_witness:
  "has_terminated interleaved_trace \<and>
   compute_metrics_float interleaved_trace =
     Inr \<lparr>throughput = 1 / 4, avg_wait_time = 1, avg_turnaround = 5, avg_response = 1\<rparr> \<and>
   arrived_pids interleaved_trace = [''A'', ''B''] \<and> latest_completion interleaved_trace = 8 \<and>
   binary64 (of_int 2 / of_int 8) = 1 / 4"
proof -
  have h: "has_terminated interleaved_trace"
    by (simp add: has_terminated_def interleaved_trace_def tr_simps)
  have c: "compute_metrics interleaved_trace =
     Inr \<lparr>throughput = 1 / 4, avg_wait_time = 1, avg_turnaround = 5, avg_response = 1\<rparr>"
    by (simp add: compute_metrics_def interleaved_trace_def scan_eval turnaround_def
        response_def values_of_def bind_res_def py_truediv_def float_max_bound_def)
  have f: "compute_metrics_float interleaved_trace =
     Inr \<lparr>throughput = 1 / 4, avg_wait_time = 1, avg_turnaround = 5, avg_response = 1\<rparr>"
    by (simp add: compute_metrics_float_def c as_floats_def binary64_small_values)
  have a: "arrived_pids interleaved_trace = [''A'', ''B'']"
    by (simp add: arrived_pids_def interleaved_trace_def tr_simps)
  have l: "latest_completion interleaved_trace = 8"
    by (simp add: latest_completion_def completed_pids_def recorded_finish_def
        termination_times_def interleaved_trace_def tr_simps List.map_filter_def)
  have "binary64 (of_int 2 / of_int 8) = 1 / 4"
    using throughput_is_float_of_n_over_total_finish_time [OF h] f a l by simp
  then show ?thesis
    using h f a l by blast
qed

text \<open>
  C6 as stated fails: the equality is not exact. In \<open>third_trace\<close> one process arrives
  and the largest finish time is 3, so \<open>n / total_finish_time\<close> is \<open>1 / 3\<close>; the throughput
  returned is the float \<open>6004799503160661 / 2 ^ 54\<close>, printed \<^verbatim>\<open>0.3333333333333333\<close>, which is
  not \<open>1 / 3\<close>. And for \<open>long_wait_trace\<close>, which has a transition into \<^verbatim>\<open>TERMINATED\<close>, no
  throughput is returned at all.
\<close>

theorem throughput_not_exact_counterexample:
  "has_terminated third_trace \<and>
   arrived_pids third_trace = [''P''] \<and> latest_completion third_trace = 3 \<and>
   compute_metrics_float third_trace =
     Inr \<lparr>throughput = 6004799503160661 / 18014398509481984, avg_wait_time = 1,
          avg_turnaround = 3, avg_response = 1\<rparr> \<and>
   (6004799503160661 / 18014398509481984 :: rat) \<noteq> of_int 1 / of_int 3 \<and>
   has_terminated long_wait_trace \<and>
   compute_metrics_float long_wait_trace = Inl OverflowError"
proof -
  have h: "has_terminated third_trace"
    by (simp add: has_terminated_def third_trace_def tr_simps)
  have a: "arrived_pids third_trace = [''P'']"
    by (simp add: arrived_pids_def third_trace_def tr_simps)
  have l: "latest_completion third_trace = 3"
    by (simp add: latest_completion_def completed_pids_def recorded_finish_def
        termination_times_def third_trace_def tr_simps List.map_filter_def)
  have c: "compute_metrics third_trace =
     Inr \<lparr>throughput = 1 / 3, avg_wait_time = 1, avg_turnaround = 3, avg_response = 1\<rparr>"
    by (simp add: compute_metrics_def third_trace_def scan_eval turnaround_def
        response_def values_of_def bind_res_def py_truediv_def float_max_bound_def)
  have f: "compute_metrics_float third_trace =
     Inr \<lparr>throughput = 6004799503160661 / 18014398509481984, avg_wait_time = 1,
          avg_turnaround = 3, avg_response = 1\<rparr>"
    by (simp add: compute_metrics_float_def c as_floats_def binary64_small_values
        binary64_one_third)
  have n: "(6004799503160661 / 18014398509481984 :: rat) \<noteq> of_int 1 / of_int 3"
    by simp
  have h2: "has_terminated long_wait_trace"
    by (simp add: has_terminated_def long_wait_trace_def tr_simps)
  have "compute_metrics long_wait_trace = Inl OverflowError"
    by (simp add: long_wait_trace_def compute_metrics_def scan_eval turnaround_def
        response_def values_of_def bind_res_def py_truediv_def float_max_bound_def)
  then have o: "compute_metrics_float long_wait_trace = Inl OverflowError"
    by (simp add: compute_metrics_float_def)
  show ?thesis
    using h a l f n h2 o by blast
qed




subsection \<open>Traces with a bounded clock\<close>

lemma values_within_update:
  "values_within B d \<Longrightarrow> \<bar>v\<bar> \<le> B \<Longrightarrow> values_within B (AList.update p v d)"
  by (induction d) (auto simp: values_within_def)

lemma values_within_lookup:
  "values_within B d \<Longrightarrow> map_of d p = Some r \<Longrightarrow> \<bar>r\<bar> \<le> B"
proof -
  assume w: "values_within B d" and m: "map_of d p = Some r"
  from m have "(p, r) \<in> set d" by (rule map_of_SomeD)
  with w have "\<bar>snd (p, r)\<bar> \<le> B"
    unfolding values_within_def list_all_iff by blast
  then show ?thesis by simp
qed

lemma abs_total_update_diff:
  "abs_total (AList.update p v d)
     \<le> abs_total d + \<bar>v - (case map_of d p of None \<Rightarrow> 0 | Some w \<Rightarrow> w)\<bar>"
  by (induction d) (auto simp: abs_total_def)

lemma abs_total_update: "abs_total (AList.update p v d) \<le> abs_total d + \<bar>v\<bar>"
  by (induction d) (auto simp: abs_total_def)

lemma abs_sum_values: "\<bar>sum_list (values_of d)\<bar> \<le> abs_total d"
  unfolding values_of_def abs_total_def
  using sum_list_abs [of "map snd d"] by (simp add: comp_def)

lemma step_bounded:
  assumes "bounded_state B k s" and "\<bar>t\<bar> \<le> B"
  shows "bounded_state B (Suc k) (step (t, q, old, new) s)"
proof -
  have B: "0 \<le> B" using assms(2) by simp
  have mono: "2 * B * int k \<le> 2 * B * int (Suc k)"
    using B by (simp add: algebra_simps)
  have keep: "abs_total (wait_time s) \<le> 2 * B * int (Suc k)"
    using assms(1) mono by (simp add: bounded_state_def)
  have grow: "abs_total (AList.update q (w0 + (t - r)) (wait_time s)) \<le> 2 * B * int (Suc k)"
    if r: "map_of (last_ready_time s) q = Some r"
      and w0: "w0 = (case map_of (wait_time s) q of None \<Rightarrow> 0 | Some w \<Rightarrow> w)"
    for r w0
  proof -
    have "\<bar>r\<bar> \<le> B"
      using assms(1) r by (auto simp: bounded_state_def dest: values_within_lookup)
    then have "\<bar>t - r\<bar> \<le> 2 * B"
      using assms(2) by simp
    moreover have "abs_total (AList.update q (w0 + (t - r)) (wait_time s))
        \<le> abs_total (wait_time s) + \<bar>(w0 + (t - r)) - w0\<bar>"
      unfolding w0 by (rule abs_total_update_diff)
    moreover have "abs_total (wait_time s) \<le> 2 * B * int k"
      using assms(1) by (simp add: bounded_state_def)
    ultimately show ?thesis
      by (simp add: algebra_simps)
  qed
  show ?thesis
    using assms keep grow
    by (auto simp: bounded_state_def step_defs Let_def values_within_update
        split: option.splits)
qed

lemma scan_from_bounded:
  "bounded_state B k s \<Longrightarrow> times_within B ts \<Longrightarrow>
   bounded_state B (k + length ts) (scan_from s ts)"
proof (induction ts arbitrary: s k)
  case Nil
  then show ?case by simp
next
  case (Cons tr ts)
  obtain t q old new where tr: "tr = (t, q, old, new)" by (cases tr)
  have t: "\<bar>t\<bar> \<le> B" and rest: "times_within B ts"
    using Cons.prems(2) by (simp_all add: times_within_def tr time_of_simp)
  have "bounded_state B (Suc k) (step tr s)"
    unfolding tr using Cons.prems(1) t by (rule step_bounded)
  from Cons.IH [OF this rest] show ?case
    by simp
qed

lemma scan_bounded: "times_within B ts \<Longrightarrow> bounded_state B (length ts) (scan ts)"
proof -
  assume tw: "times_within B ts"
  have "bounded_state B 0 init_state"
    by (simp add: bounded_state_def init_state_def values_within_def abs_total_def)
  from scan_from_bounded [OF this tw] show ?thesis
    by (simp add: scan_def)
qed

lemma turnaround_loop_bounded:
  "values_within B fin \<Longrightarrow> values_within B arr \<Longrightarrow>
   abs_total (turnaround_loop fin arr acc) \<le> abs_total acc + 2 * B * int (length arr)"
proof (induction arr arbitrary: acc)
  case Nil
  then show ?case by simp
next
  case (Cons x arr)
  obtain p a where x: "x = (p, a)" by (cases x)
  have a: "\<bar>a\<bar> \<le> B" and rest: "values_within B arr"
    using Cons.prems(2) by (simp_all add: values_within_def x)
  let ?acc = "case map_of fin p of None \<Rightarrow> acc | Some f \<Rightarrow> AList.update p (f - a) acc"
  have "abs_total ?acc \<le> abs_total acc + 2 * B"
  proof (cases "map_of fin p")
    case None
    then show ?thesis using a by simp
  next
    case (Some f)
    have "\<bar>f\<bar> \<le> B"
      using Cons.prems(1) Some by (rule values_within_lookup)
    then have "\<bar>f - a\<bar> \<le> 2 * B" using a by simp
    then show ?thesis
      using abs_total_update [of p "f - a" acc] Some by simp
  qed
  moreover have "abs_total (turnaround_loop fin arr ?acc)
      \<le> abs_total ?acc + 2 * B * int (length arr)"
    using Cons.prems(1) rest by (rule Cons.IH)
  ultimately show ?case
    by (simp add: x algebra_simps)
qed

lemma response_loop_bounded:
  "values_within B fr \<Longrightarrow> values_within B arr \<Longrightarrow>
   abs_total (response_loop fr arr acc) \<le> abs_total acc + 2 * B * int (length arr)"
proof (induction arr arbitrary: acc)
  case Nil
  then show ?case by simp
next
  case (Cons x arr)
  obtain p a where x: "x = (p, a)" by (cases x)
  have a: "\<bar>a\<bar> \<le> B" and rest: "values_within B arr"
    using Cons.prems(2) by (simp_all add: values_within_def x)
  let ?acc = "case map_of fr p of None \<Rightarrow> acc | Some r \<Rightarrow> AList.update p (r - a) acc"
  have "abs_total ?acc \<le> abs_total acc + 2 * B"
  proof (cases "map_of fr p")
    case None
    then show ?thesis using a by simp
  next
    case (Some r)
    have "\<bar>r\<bar> \<le> B"
      using Cons.prems(1) Some by (rule values_within_lookup)
    then have "\<bar>r - a\<bar> \<le> 2 * B" using a by simp
    then show ?thesis
      using abs_total_update [of p "r - a" acc] Some by simp
  qed
  moreover have "abs_total (response_loop fr arr ?acc)
      \<le> abs_total ?acc + 2 * B * int (length arr)"
    using Cons.prems(1) rest by (rule Cons.IH)
  ultimately show ?case
    by (simp add: x algebra_simps)
qed

lemma py_truediv_in_range:
  assumes "1 \<le> n" and "rat_of_int \<bar>a\<bar> < float_max_bound"
  shows "py_truediv a n = Inr (of_int a / of_int n)"
proof -
  have "\<bar>rat_of_int a / rat_of_int n\<bar> = rat_of_int \<bar>a\<bar> / rat_of_int n"
    using assms(1) by simp
  also have "\<dots> \<le> rat_of_int \<bar>a\<bar> / 1"
    using assms(1) by (intro divide_left_mono) simp_all
  finally have "\<bar>rat_of_int a / rat_of_int n\<bar> < float_max_bound"
    using assms(2) by simp
  then show ?thesis
    using assms(1) by (simp add: py_truediv_def)
qed

lemma length_arrived_pids_le: "length (arrived_pids ts) \<le> length ts"
proof -
  have "length (arrived_pids ts) \<le> length (map pid_of (filter is_arrival ts))"
    unfolding arrived_pids_def by (rule length_remdups_leq)
  also have "\<dots> \<le> length ts" by simp
  finally show ?thesis .
qed

lemma compute_metrics_returns:
  assumes ht: "has_terminated ts" and tw: "times_within B ts"
    and small: "rat_of_int (int (length ts) * (2 * B + 1)) < float_max_bound"
  shows "\<exists>m. compute_metrics ts = Inr m"
proof -
  define n where "n = (if arrived_pids ts = [] then 1 else int (length (arrived_pids ts)))"
  define L where "L = int (length ts)"
  have ne: "ts \<noteq> []"
    using ht by (auto simp: has_terminated_def)
  then have L1: "1 \<le> L"
    by (cases ts) (simp_all add: L_def)
  have B0: "0 \<le> B"
    using tw ne by (cases ts) (auto simp: times_within_def)
  have n1: "1 \<le> n"
    by (simp add: n_def) (metis Suc_leI length_greater_0_conv)
  have nL: "n \<le> L"
    using length_arrived_pids_le [of ts] L1 by (simp add: n_def L_def)
  have bs: "bounded_state B (length ts) (scan ts)"
    using tw by (rule scan_bounded)
  have len: "int (length (arrivals (scan ts))) \<le> L"
    using length_arrived_pids_le [of ts] by (simp add: length_arrivals_scan L_def)
  have "2 * B * int (length (arrivals (scan ts))) \<le> 2 * B * L"
    using B0 len by (intro mult_left_mono) simp_all
  also have "\<dots> \<le> L * (2 * B + 1)"
    using L1 by (simp add: algebra_simps)
  finally have arrL: "2 * B * int (length (arrivals (scan ts))) \<le> L * (2 * B + 1)" .
  have lim: "rat_of_int x < float_max_bound" if "x \<le> L * (2 * B + 1)" for x
  proof -
    have "rat_of_int x \<le> rat_of_int (L * (2 * B + 1))"
      using that by (simp only: of_int_le_iff)
    then show ?thesis using small by (simp add: L_def)
  qed
  have w: "\<bar>sum_list (values_of (wait_time (scan ts)))\<bar> \<le> L * (2 * B + 1)"
  proof -
    have "\<bar>sum_list (values_of (wait_time (scan ts)))\<bar> \<le> 2 * B * L"
      using abs_sum_values [of "wait_time (scan ts)"] bs by (simp add: bounded_state_def L_def)
    also have "\<dots> \<le> L * (2 * B + 1)"
      using L1 by (simp add: algebra_simps)
    finally show ?thesis .
  qed
  have tu: "\<bar>sum_list (values_of (turnaround (scan ts)))\<bar> \<le> L * (2 * B + 1)"
  proof -
    have "abs_total (turnaround (scan ts)) \<le> 2 * B * int (length (arrivals (scan ts)))"
      using turnaround_loop_bounded [of B "finish_time (scan ts)" "arrivals (scan ts)" "[]"] bs
      by (simp add: bounded_state_def turnaround_def abs_total_def)
    then show ?thesis
      using abs_sum_values [of "turnaround (scan ts)"] arrL by linarith
  qed
  have re: "\<bar>sum_list (values_of (response (scan ts)))\<bar> \<le> L * (2 * B + 1)"
  proof -
    have "abs_total (response (scan ts)) \<le> 2 * B * int (length (arrivals (scan ts)))"
      using response_loop_bounded [of B "first_run (scan ts)" "arrivals (scan ts)" "[]"] bs
      by (simp add: bounded_state_def response_def abs_total_def)
    then show ?thesis
      using abs_sum_values [of "response (scan ts)"] arrL by linarith
  qed
  have nn: "\<bar>n\<bar> \<le> L * (2 * B + 1)"
  proof -
    have "L * 1 \<le> L * (2 * B + 1)"
      using L1 B0 by (intro mult_left_mono) simp_all
    then have "L \<le> L * (2 * B + 1)" by simp
    then show ?thesis using nL n1 by linarith
  qed
  have d1: "py_truediv (sum_list (values_of (wait_time (scan ts)))) n
      = Inr (of_int (sum_list (values_of (wait_time (scan ts)))) / of_int n)"
    using n1 lim [OF w] by (rule py_truediv_in_range)
  have d2: "py_truediv (sum_list (values_of (turnaround (scan ts)))) n
      = Inr (of_int (sum_list (values_of (turnaround (scan ts)))) / of_int n)"
    using n1 lim [OF tu] by (rule py_truediv_in_range)
  have d3: "py_truediv (sum_list (values_of (response (scan ts)))) n
      = Inr (of_int (sum_list (values_of (response (scan ts)))) / of_int n)"
    using n1 lim [OF re] by (rule py_truediv_in_range)
  have d0: "py_truediv n (latest_completion ts) = Inr (of_int n / of_int (latest_completion ts))"
    if "0 < latest_completion ts"
  proof (rule py_truediv_in_range)
    show "1 \<le> latest_completion ts" using that by simp
    show "rat_of_int \<bar>n\<bar> < float_max_bound" using lim [OF nn] .
  qed
  show ?thesis
    unfolding compute_metrics_unfold [OF ht] Let_def n_def [symmetric]
    using d0 d1 d2 d3 by (simp add: bind_res_def)
qed

lemma compute_metrics_not_zero_division: "compute_metrics ts \<noteq> Inl ZeroDivisionError"
proof (cases "has_terminated ts")
  case True
  then show ?thesis
    using compute_metrics_cases [of ts] by auto
next
  case False
  then show ?thesis
    by (simp add: compute_metrics_no_termination)
qed

text \<open>
  C10, as the code has it. No division of \<open>compute_metrics\<close> is by zero, on any trace: the
  denominator \<open>n\<close> is at least 1 and the throughput is divided only when
  \<open>total_finish_time\<close> is positive. For a trace with a transition into \<^verbatim>\<open>TERMINATED\<close> a
  metrics record is returned when the clock is bounded: when every time of the trace is at
  most \<open>B\<close> in magnitude and the number of transitions times \<open>2 * B + 1\<close> is below the
  bound of a float.
\<close>

theorem no_zero_division_and_total_when_bounded:
  "compute_metrics ts \<noteq> Inl ZeroDivisionError \<and>
   (has_terminated ts \<and> times_within B ts \<and>
    rat_of_int (int (length ts) * (2 * B + 1)) < float_max_bound
      \<longrightarrow> (\<exists>m. compute_metrics ts = Inr m))"
  using compute_metrics_not_zero_division [of ts] compute_metrics_returns [of ts B] by blast

theorem no_zero_division_and_total_when_bounded_witness:
  "has_terminated interleaved_trace \<and> times_within 8 interleaved_trace \<and>
   rat_of_int (int (length interleaved_trace) * (2 * 8 + 1)) < float_max_bound \<and>
   compute_metrics interleaved_trace \<noteq> Inl ZeroDivisionError \<and>
   (\<exists>m. compute_metrics interleaved_trace = Inr m)"
proof -
  have h: "has_terminated interleaved_trace"
    by (simp add: has_terminated_def interleaved_trace_def tr_simps)
  have t: "times_within 8 interleaved_trace"
    by (simp add: times_within_def interleaved_trace_def tr_simps)
  have s: "rat_of_int (int (length interleaved_trace) * (2 * 8 + 1)) < float_max_bound"
    by (simp add: interleaved_trace_def float_max_bound_def)
  show ?thesis
    using no_zero_division_and_total_when_bounded [of interleaved_trace 8] h t s by blast
qed

text \<open>
  C10 as stated fails: \<open>late_finish_trace\<close> has a transition into \<^verbatim>\<open>TERMINATED\<close>, at time
  \<open>10 ^ 400\<close>, and \<open>compute_metrics\<close> returns no record: the turnaround of \<open>Q\<close> is
  \<open>10 ^ 400\<close>, and the division of line 145 raises \<^verbatim>\<open>OverflowError\<close>.
\<close>

theorem not_total_on_terminated_trace_counterexample:
  "has_terminated late_finish_trace \<and> compute_metrics late_finish_trace = Inl OverflowError"
  by (simp add: has_terminated_def late_finish_trace_def tr_simps compute_metrics_def scan_eval
      turnaround_def response_def values_of_def bind_res_def py_truediv_def float_max_bound_def)

subsection \<open>Response and turnaround of well-formed lifecycles\<close>

lemma sum_values_update_fresh:
  "p \<notin> fst ` set d \<Longrightarrow>
   sum_list (values_of (AList.update p v d)) = sum_list (values_of d) + v"
  by (induction d) (auto simp: values_of_def)

lemma response_loop_sum:
  "distinct (map fst arr) \<Longrightarrow> fst ` set arr \<inter> fst ` set acc = {} \<Longrightarrow>
   sum_list (values_of (response_loop fr arr acc)) =
     sum_list (values_of acc)
       + sum_list (map (\<lambda>x. case map_of fr (fst x) of None \<Rightarrow> 0 | Some r \<Rightarrow> r - snd x) arr)"
proof (induction arr arbitrary: acc)
  case Nil
  then show ?case by simp
next
  case (Cons x arr)
  obtain p a where x: "x = (p, a)" by (cases x)
  have d: "distinct (map fst arr)" and pnot: "p \<notin> fst ` set arr"
    using Cons.prems(1) by (simp_all add: x)
  have fresh: "p \<notin> fst ` set acc"
    using Cons.prems(2) by (simp add: x)
  have rest: "fst ` set arr \<inter> fst ` set acc = {}"
    using Cons.prems(2) by (simp add: x)
  show ?case
  proof (cases "map_of fr p")
    case None
    then show ?thesis
      using Cons.IH [OF d rest] by (simp add: x)
  next
    case (Some r)
    have "fst ` set arr \<inter> fst ` set (AList.update p (r - a) acc) = {}"
      using rest pnot by (simp add: AList.dom_update)
    from Cons.IH [OF d this] show ?thesis
      using Some fresh by (simp add: x sum_values_update_fresh)
  qed
qed

lemma turnaround_loop_sum:
  "distinct (map fst arr) \<Longrightarrow> fst ` set arr \<inter> fst ` set acc = {} \<Longrightarrow>
   sum_list (values_of (turnaround_loop fin arr acc)) =
     sum_list (values_of acc)
       + sum_list (map (\<lambda>x. case map_of fin (fst x) of None \<Rightarrow> 0 | Some f \<Rightarrow> f - snd x) arr)"
proof (induction arr arbitrary: acc)
  case Nil
  then show ?case by simp
next
  case (Cons x arr)
  obtain p a where x: "x = (p, a)" by (cases x)
  have d: "distinct (map fst arr)" and pnot: "p \<notin> fst ` set arr"
    using Cons.prems(1) by (simp_all add: x)
  have fresh: "p \<notin> fst ` set acc"
    using Cons.prems(2) by (simp add: x)
  have rest: "fst ` set arr \<inter> fst ` set acc = {}"
    using Cons.prems(2) by (simp add: x)
  show ?case
  proof (cases "map_of fin p")
    case None
    then show ?thesis
      using Cons.IH [OF d rest] by (simp add: x)
  next
    case (Some f)
    have "fst ` set arr \<inter> fst ` set (AList.update p (f - a) acc) = {}"
      using rest pnot by (simp add: AList.dom_update)
    from Cons.IH [OF d this] show ?thesis
      using Some fresh by (simp add: x sum_values_update_fresh)
  qed
qed

lemma first_run_persists:
  "map_of (first_run s) p = Some v \<Longrightarrow> map_of (first_run (scan_from s ts)) p = Some v"
proof (induction ts arbitrary: s)
  case Nil
  then show ?case by simp
next
  case (Cons tr ts)
  obtain t q old new where tr: "tr = (t, q, old, new)" by (cases tr)
  have "map_of (first_run (step tr s)) p = Some v"
    using Cons.prems by (simp add: tr step_first_run)
  then show ?case
    by (simp add: Cons.IH)
qed

lemma recorded_finish_time_of:
  assumes "recorded_finish ts p = Some f"
  shows "\<exists>tr \<in> set ts. is_termination tr \<and> time_of tr = f"
proof -
  have ne: "termination_times ts p \<noteq> []" and f: "f = last (termination_times ts p)"
    using assms by (auto simp: recorded_finish_def split: list.splits)
  then have "f \<in> set (termination_times ts p)"
    by simp
  then show ?thesis
    by (auto simp: termination_times_def)
qed

text \<open>The scan of one well-formed lifecycle: dispatched first at the second transition,
  finished no earlier.\<close>

lemma lifecycle_first_run_finish:
  assumes ok: "lifecycle_ok xs" and own: "\<forall>tr \<in> set xs. pid_of tr = p"
  shows "\<exists>r f. map_of (first_run (scan xs)) p = Some r \<and>
               map_of (finish_time (scan xs)) p = Some f \<and> r \<le> f"
proof -
  obtain t0 p0 old0 new0 t1 p1 old1 new1 rest
    where xs: "xs = (t0, p0, old0, new0) # (t1, p1, old1, new1) # rest"
    using ok by (cases xs rule: lifecycle_ok.cases) auto
  have p0: "p0 = p" and p1: "p1 = p"
    using own by (simp_all add: xs pid_of_simp)
  have shape: "old0 = ''NEW''" "new0 = ''READY''" "old1 = ''READY''" "new1 = ''RUNNING''"
    and fin: "is_termination (last ((t1, p1, old1, new1) # rest))"
    and srt: "sorted (t0 # t1 # map time_of rest)"
    using ok unfolding xs lifecycle_ok.simps by blast+
  let ?s2 = "step (t1, p1, old1, new1) (step (t0, p0, old0, new0) init_state)"
  have "map_of (first_run ?s2) p = Some t1"
    by (simp add: step_first_run shape p0 p1 init_state_def)
  then have fr: "map_of (first_run (scan xs)) p = Some t1"
    unfolding scan_def xs scan_from.simps by (rule first_run_persists)
  have "pid_of (last ((t1, p1, old1, new1) # rest)) = p"
    using own by (metis last_in_set list.distinct(1) list.set_intros(2) xs)
  then have "termination_times xs p \<noteq> []"
    using fin by (auto simp: termination_times_def xs filter_empty_conv tr_simps
        intro!: bexI [of _ "last ((t1, p1, old1, new1) # rest)"])
  then obtain f where f: "recorded_finish xs p = Some f"
    by (cases "termination_times xs p") (simp_all add: recorded_finish_def)
  from recorded_finish_time_of [OF f] obtain tr
    where tr: "tr \<in> set xs" "is_termination tr" "time_of tr = f"
    by blast
  have "tr \<noteq> (t0, p0, old0, new0)"
    using tr(2) shape by (auto simp: is_termination_simp)
  then have "tr = (t1, p1, old1, new1) \<or> tr \<in> set rest"
    using tr(1) by (auto simp: xs)
  then have "t1 \<le> f"
    using srt tr(3) by (auto simp: time_of_simp)
  then show ?thesis
    using fr f by (simp add: finish_time_scan)
qed

lemma well_formed_arrival_terms:
  assumes wf: "well_formed ts" and pa: "(p, a) \<in> set (arrivals (scan ts))"
  shows "(case map_of (first_run (scan ts)) p of None \<Rightarrow> 0 | Some r \<Rightarrow> r - a)
           \<le> (case map_of (finish_time (scan ts)) p of None \<Rightarrow> 0 | Some f \<Rightarrow> f - a)"
proof -
  have "p \<in> fst ` set (arrivals (scan ts))"
    using pa by force
  then have "p \<in> dom (map_of (arrivals (scan ts)))"
    by (simp add: dom_map_of_conv_image_fst)
  then have "p \<in> set (arrived_pids ts)"
    using last_arrival_Some_iff [of ts p] by (auto simp: arrivals_scan)
  then have "p \<in> set (map pid_of ts)"
    by (auto simp: arrived_pids_def)
  then have ok: "lifecycle_ok (proc_trace ts p)"
    using wf by (auto simp: well_formed_def list_all_iff)
  have own: "\<forall>tr \<in> set (proc_trace ts p). pid_of tr = p"
    by (simp add: proc_trace_def)
  from lifecycle_first_run_finish [OF ok own] obtain r f
    where "map_of (first_run (scan (proc_trace ts p))) p = Some r"
      and "map_of (finish_time (scan (proc_trace ts p))) p = Some f" and "r \<le> f"
    by blast
  moreover have "map_of (first_run (scan ts)) p = map_of (first_run (scan (proc_trace ts p))) p"
    and "map_of (finish_time (scan ts)) p = map_of (finish_time (scan (proc_trace ts p))) p"
    using timeline_scan_proc_trace [of ts p] by (simp_all add: timeline_def)
  ultimately show ?thesis
    by simp
qed

lemma well_formed_sums:
  assumes "well_formed ts"
  shows "sum_list (values_of (response (scan ts))) \<le> sum_list (values_of (turnaround (scan ts)))"
proof -
  have d: "distinct (map fst (arrivals (scan ts)))"
    using scan_keys_distinct [of ts] by (simp add: keys_distinct_def)
  have e: "fst ` set (arrivals (scan ts)) \<inter> fst ` set [] = {}"
    by simp
  have "sum_list (map (\<lambda>x. case map_of (first_run (scan ts)) (fst x) of
                              None \<Rightarrow> 0 | Some r \<Rightarrow> r - snd x) (arrivals (scan ts)))
      \<le> sum_list (map (\<lambda>x. case map_of (finish_time (scan ts)) (fst x) of
                              None \<Rightarrow> 0 | Some f \<Rightarrow> f - snd x) (arrivals (scan ts)))"
  proof (rule sum_list_mono)
    fix x
    assume "x \<in> set (arrivals (scan ts))"
    then have "(fst x, snd x) \<in> set (arrivals (scan ts))"
      by simp
    then show "(case map_of (first_run (scan ts)) (fst x) of None \<Rightarrow> 0 | Some r \<Rightarrow> r - snd x)
        \<le> (case map_of (finish_time (scan ts)) (fst x) of None \<Rightarrow> 0 | Some f \<Rightarrow> f - snd x)"
      by (rule well_formed_arrival_terms [OF assms])
  qed
  moreover have "sum_list (values_of []) = 0"
    by (simp add: values_of_def)
  ultimately show ?thesis
    unfolding response_def turnaround_def
    by (simp add: response_loop_sum [OF d e] turnaround_loop_sum [OF d e])
qed

lemma averages_value:
  assumes "compute_metrics ts = Inr m"
  shows "avg_response m =
           of_int (sum_list (values_of (response (scan ts))))
             / of_int (if arrived_pids ts = [] then 1 else int (length (arrived_pids ts)))"
    and "avg_turnaround m =
           of_int (sum_list (values_of (turnaround (scan ts))))
             / of_int (if arrived_pids ts = [] then 1 else int (length (arrived_pids ts)))"
proof -
  have ht: "has_terminated ts"
    using assms compute_metrics_no_termination [of ts] by auto
  show "avg_response m =
           of_int (sum_list (values_of (response (scan ts))))
             / of_int (if arrived_pids ts = [] then 1 else int (length (arrived_pids ts)))"
    using assms unfolding compute_metrics_unfold [OF ht] Let_def
    by (auto simp: bind_res_def py_truediv_def split: sum.splits if_splits)
  show "avg_turnaround m =
           of_int (sum_list (values_of (turnaround (scan ts))))
             / of_int (if arrived_pids ts = [] then 1 else int (length (arrived_pids ts)))"
    using assms unfolding compute_metrics_unfold [OF ht] Let_def
    by (auto simp: bind_res_def py_truediv_def split: sum.splits if_splits)
qed

text \<open>
  C8. For every trace in which the lifecycle of each process is well-formed (it arrives,
  is dispatched, does not enter \<^verbatim>\<open>READY\<close> again and ends in \<^verbatim>\<open>TERMINATED\<close>, with
  times that do not decrease), the average response that \<open>compute_metrics\<close> returns is at
  most the average turnaround it returns.
\<close>

theorem avg_response_le_avg_turnaround:
  assumes "well_formed ts" and "compute_metrics ts = Inr m"
  shows "avg_response m \<le> avg_turnaround m"
proof -
  let ?n = "if arrived_pids ts = [] then 1 else int (length (arrived_pids ts))"
  have "rat_of_int (sum_list (values_of (response (scan ts))))
      \<le> rat_of_int (sum_list (values_of (turnaround (scan ts))))"
    using well_formed_sums [OF assms(1)] by (simp only: of_int_le_iff)
  moreover have "0 \<le> rat_of_int ?n"
    by simp
  ultimately have "rat_of_int (sum_list (values_of (response (scan ts)))) / rat_of_int ?n
      \<le> rat_of_int (sum_list (values_of (turnaround (scan ts)))) / rat_of_int ?n"
    by (rule divide_right_mono)
  then show ?thesis
    using averages_value [OF assms(2)] by simp
qed

theorem avg_response_le_avg_turnaround_witness:
  "well_formed interleaved_trace \<and>
   compute_metrics interleaved_trace =
     Inr \<lparr>throughput = 1 / 4, avg_wait_time = 1, avg_turnaround = 5, avg_response = 1\<rparr> \<and>
   avg_response \<lparr>throughput = 1 / 4, avg_wait_time = 1, avg_turnaround = 5, avg_response = 1\<rparr>
     \<le> avg_turnaround
         \<lparr>throughput = 1 / 4, avg_wait_time = 1, avg_turnaround = 5, avg_response = 1\<rparr>"
proof -
  have w: "well_formed interleaved_trace"
    by (simp add: well_formed_def interleaved_trace_def proc_trace_def tr_simps)
  have c: "compute_metrics interleaved_trace =
     Inr \<lparr>throughput = 1 / 4, avg_wait_time = 1, avg_turnaround = 5, avg_response = 1\<rparr>"
    by (simp add: compute_metrics_def interleaved_trace_def scan_eval turnaround_def
        response_def values_of_def bind_res_def py_truediv_def float_max_bound_def)
  show ?thesis
    using avg_response_le_avg_turnaround [OF w c] w c by blast
qed

section \<open>Properties of the reader\<close>

lemma set_parse_loop:
  "set (parse_loop maxd lines acc) =
     set acc \<union> {tr. \<exists>raw \<in> set lines. parse_row maxd raw = Some tr}"
proof (induction lines arbitrary: acc)
  case Nil
  show ?case by simp
next
  case (Cons raw rest)
  show ?case
  proof (cases "parse_row maxd raw")
    case None
    then show ?thesis
      using Cons.IH [of acc] by auto
  next
    case (Some tr)
    then show ?thesis
      using Cons.IH [of "acc @ [tr]"] by auto
  qed
qed

lemma startswith_bar_not_plus: "startswith s ''|'' \<Longrightarrow> \<not> startswith s ''+''"
  by (cases s) (simp_all add: startswith_def)

lemma parse_row_Some_iff:
  "parse_row maxd raw = Some (t, p, old, new) \<longleftrightarrow>
     is_table_row raw \<and> 5 \<le> length (row_fields raw) \<and>
     \<not> startswith (row_fields raw ! 1) ''Time'' \<and>
     py_int maxd (row_fields raw ! 1) = Inr t \<and>
     p = row_fields raw ! 2 \<and> old = row_fields raw ! 3 \<and> new = row_fields raw ! 4"
proof (cases "is_table_row raw")
  case False
  then show ?thesis
    by (simp add: parse_row_def is_table_row_def Let_def)
next
  case True
  then have "\<not> startswith (strip (rstrip_newline raw)) ''+''"
    unfolding is_table_row_def by (rule startswith_bar_not_plus)
  then show ?thesis
    using True unfolding parse_row_def is_table_row_def row_fields_def Let_def
    by (auto split: sum.splits)
qed

lemma int_isspace_py_isspace: "int_isspace c \<Longrightarrow> py_isspace c"
  by (auto simp: int_isspace_def py_isspace_def Let_def)

lemma rev_dropWhile_rev_hd:
  "rev (dropWhile P (rev xs)) \<noteq> [] \<Longrightarrow> hd (rev (dropWhile P (rev xs))) = hd xs"
proof (induction xs)
  case Nil
  then show ?case by simp
next
  case (Cons x xs)
  show ?case
  proof (cases "rev (dropWhile P (rev xs)) = []")
    case True
    then have "dropWhile P (rev xs) = []" by simp
    then have "dropWhile P (rev xs @ [x]) = dropWhile P [x]"
      by (simp add: dropWhile_append dropWhile_eq_Nil_conv)
    then show ?thesis using Cons.prems by (auto split: if_splits)
  next
    case False
    then have "dropWhile P (rev xs) \<noteq> []" by simp
    then have "dropWhile P (rev xs @ [x]) = dropWhile P (rev xs) @ [x]"
      by (auto simp: dropWhile_append dropWhile_eq_Nil_conv)
    then show ?thesis by simp
  qed
qed

lemma strip_hd_not_space: "strip s \<noteq> [] \<Longrightarrow> \<not> py_isspace (hd (strip s))"
proof -
  assume ne: "strip s \<noteq> []"
  then have "hd (strip s) = hd (dropWhile py_isspace s)"
    unfolding strip_def by (rule rev_dropWhile_rev_hd)
  moreover have "dropWhile py_isspace s \<noteq> []"
  proof
    assume "dropWhile py_isspace s = []"
    then have "strip s = []" by (simp add: strip_def del: dropWhile_eq_Nil_conv)
    with ne show False by simp
  qed
  ultimately show ?thesis
    using hd_dropWhile [of py_isspace s] by simp
qed

lemma fold_digits_nonneg:
  "list_all (\<lambda>c. is_digit c \<or> c = CHR ''_'') s \<Longrightarrow> 0 \<le> v \<Longrightarrow>
   0 \<le> fold (\<lambda>c v. if c = CHR ''_'' then v else 10 * v + digit_value c) s v"
proof (induction s arbitrary: v)
  case Nil
  then show ?case by simp
next
  case (Cons c s)
  have rest: "list_all (\<lambda>c. is_digit c \<or> c = CHR ''_'') s"
    using Cons.prems(1) by simp
  have "0 \<le> (if c = CHR ''_'' then v else 10 * v + digit_value c)"
    using Cons.prems by (auto simp: is_digit_def digit_value_def)
  from Cons.IH [OF rest this] show ?case by simp
qed

lemma digits_value_nonneg: "digits_ok s \<Longrightarrow> 0 \<le> digits_value s"
  unfolding digits_value_def by (rule fold_digits_nonneg) (simp_all add: digits_ok_def)

lemma py_int_negative_sign:
  assumes "py_int maxd (strip s) = Inr t" and "t < 0"
  shows "startswith (strip s) ''-''"
proof -
  let ?u = "dropWhile int_isspace (strip s)"
  have u: "?u = strip s"
  proof (cases "strip s = []")
    case True
    then show ?thesis by simp
  next
    case False
    then have "\<not> int_isspace (hd (strip s))"
      using strip_hd_not_space [of s] int_isspace_py_isspace by blast
    then show ?thesis
      using False by (cases "strip s") simp_all
  qed
  let ?r = "if ?u \<noteq> [] \<and> (hd ?u = CHR ''+'' \<or> hd ?u = CHR ''-'') then tl ?u else ?u"
  let ?body = "rev (dropWhile int_isspace (rev ?r))"
  have ok: "digits_ok ?body"
    and t: "t = (if ?u \<noteq> [] \<and> hd ?u = CHR ''-'' then - digits_value ?body
                 else digits_value ?body)"
    using assms(1) unfolding py_int_def Let_def by (auto split: if_splits)
  have "0 \<le> digits_value ?body"
    using ok by (rule digits_value_nonneg)
  then have "?u \<noteq> [] \<and> hd ?u = CHR ''-''"
    using t assms(2) by (auto split: if_splits)
  then have "strip s \<noteq> []" and "hd (strip s) = CHR ''-''"
    using u by simp_all
  then show ?thesis
    by (cases "strip s") (simp_all add: startswith_def)
qed

lemma row_fields_nth_strip:
  "i < length (row_fields raw) \<Longrightarrow> \<exists>s. row_fields raw ! i = strip s"
  by (auto simp: row_fields_def)

text \<open>
  C4, as the code has it. A record \<open>(t, p, old, new)\<close> is among those that
  \<open>parse_execution_file\<close> returns exactly when some line of the file is a table row
  that splits into at least 5 pieces at the bars, whose second piece does not begin with
  \<^verbatim>\<open>Time\<close> and is accepted by \<^verbatim>\<open>int\<close> with value \<open>t\<close>, and whose third to fifth pieces
  are \<open>p\<close>, \<open>old\<close> and \<open>new\<close>. Every other line is discarded. The time \<open>t\<close> is an
  integer; it is negative only when the piece begins with a minus sign.
\<close>

theorem parse_execution_file_rows:
  "(t, p, old, new) \<in> set (parse_execution_file maxd lines) \<longleftrightarrow>
     (\<exists>raw \<in> set lines.
        is_table_row raw \<and> 5 \<le> length (row_fields raw) \<and>
        \<not> startswith (row_fields raw ! 1) ''Time'' \<and>
        py_int maxd (row_fields raw ! 1) = Inr t \<and>
        (t < 0 \<longrightarrow> startswith (row_fields raw ! 1) ''-'') \<and>
        p = row_fields raw ! 2 \<and> old = row_fields raw ! 3 \<and> new = row_fields raw ! 4)"
proof -
  have neg: "startswith (row_fields raw ! 1) ''-''"
    if "5 \<le> length (row_fields raw)" and "py_int maxd (row_fields raw ! 1) = Inr t" and "t < 0"
    for raw
  proof -
    have "1 < length (row_fields raw)"
      using that(1) by simp
    from row_fields_nth_strip [OF this] obtain s where "row_fields raw ! 1 = strip s"
      by blast
    then show ?thesis
      using py_int_negative_sign [of maxd s t] that(2,3) by simp
  qed
  have "(t, p, old, new) \<in> set (parse_execution_file maxd lines) \<longleftrightarrow>
      (\<exists>raw \<in> set lines. parse_row maxd raw = Some (t, p, old, new))"
    by (simp add: parse_execution_file_def set_parse_loop)
  also have "\<dots> \<longleftrightarrow> (\<exists>raw \<in> set lines.
        is_table_row raw \<and> 5 \<le> length (row_fields raw) \<and>
        \<not> startswith (row_fields raw ! 1) ''Time'' \<and>
        py_int maxd (row_fields raw ! 1) = Inr t \<and>
        (t < 0 \<longrightarrow> startswith (row_fields raw ! 1) ''-'') \<and>
        p = row_fields raw ! 2 \<and> old = row_fields raw ! 3 \<and> new = row_fields raw ! 4)"
    unfolding parse_row_Some_iff using neg by blast
  finally show ?thesis .
qed

lemmas reader_eval = parse_execution_file_def parse_row_def rstrip_newline_def strip_def
  py_isspace_def startswith_def py_int_def int_isspace_def digits_ok_def is_digit_def
  digits_value_def digit_value_def is_table_row_def row_fields_def

theorem parse_execution_file_rows_witness:
  "(- 5, ''1'', ''NEW'', ''READY'') \<in> set (parse_execution_file 4300 negative_time_lines) \<and>
   is_table_row ''| -5 | 1 | NEW | READY |'' \<and>
   5 \<le> length (row_fields ''| -5 | 1 | NEW | READY |'') \<and>
   \<not> startswith (row_fields ''| -5 | 1 | NEW | READY |'' ! 1) ''Time'' \<and>
   py_int 4300 (row_fields ''| -5 | 1 | NEW | READY |'' ! 1) = Inr (- 5) \<and>
   startswith (row_fields ''| -5 | 1 | NEW | READY |'' ! 1) ''-''"
proof -
  have f: "row_fields ''| -5 | 1 | NEW | READY |'' = ['''', ''-5'', ''1'', ''NEW'', ''READY'', '''']"
    by (simp add: row_fields_def rstrip_newline_def strip_def py_isspace_def)
  have r: "is_table_row ''| -5 | 1 | NEW | READY |''"
    by (simp add: is_table_row_def rstrip_newline_def strip_def py_isspace_def startswith_def)
  have i: "py_int 4300 ''-5'' = Inr (- 5)"
    by (simp add: py_int_def int_isspace_def digits_ok_def is_digit_def digits_value_def
        digit_value_def)
  have "(- 5, ''1'', ''NEW'', ''READY'') \<in> set (parse_execution_file 4300 negative_time_lines)"
    unfolding parse_execution_file_rows negative_time_lines_def
    using f r i by (simp add: startswith_def)
  then show ?thesis
    using f r i by (simp add: startswith_def)
qed

text \<open>
  C4 as stated fails: the line \<^verbatim>\<open>| -5 | 1 | NEW | READY |\<close> is kept, since \<^verbatim>\<open>int("-5")\<close>
  is \<open>- 5\<close>, and the record returned for it has a negative time.
\<close>

theorem negative_time_kept_counterexample:
  "parse_execution_file 4300 negative_time_lines = [(- 5, ''1'', ''NEW'', ''READY'')] \<and>
   fst (hd (parse_execution_file 4300 negative_time_lines)) < 0"
  by (simp add: negative_time_lines_def reader_eval)

end
